theory Spec2Isabelle
  imports Main
begin

section \<open>Go strings\<close>

text \<open>
  The service is the Go program \<^verbatim>\<open>host_did_web/src/main.go\<close>. A Go string is a
  sequence of bytes, here a \<^typ>\<open>string\<close>. The functions of package \<^verbatim>\<open>strings\<close>
  that the program calls are written out below. \<^verbatim>\<open>ToLower\<close>, \<^verbatim>\<open>EqualFold\<close> and
  \<^verbatim>\<open>TrimSpace\<close> follow Unicode in Go; here they are written for ASCII, and agree with
  Go on ASCII strings only: \<^verbatim>\<open>ToLower\<close> maps \<^verbatim>\<open>A-Z\<close> and leaves every other byte,
  \<^verbatim>\<open>EqualFold\<close> compares the results, \<^verbatim>\<open>TrimSpace\<close> trims the six ASCII blanks. A
  statement that depends on them for an arbitrary string carries the hypothesis
  \<open>ascii\<close>; the others are at ASCII inputs or do not depend on their result.
\<close>

definition ascii :: "string \<Rightarrow> bool" where
  "ascii s = list_all (\<lambda>c. (of_char c :: nat) < 128) s"

definition HasPrefix :: "string \<Rightarrow> string \<Rightarrow> bool" where
  "HasPrefix s p = (take (length p) s = p)"

definition HasSuffix :: "string \<Rightarrow> string \<Rightarrow> bool" where
  "HasSuffix s x = (length x \<le> length s \<and> drop (length s - length x) s = x)"

definition TrimSuffix :: "string \<Rightarrow> string \<Rightarrow> string" where
  "TrimSuffix s x = (if HasSuffix s x then take (length s - length x) s else s)"

definition lower_char :: "char \<Rightarrow> char" where
  "lower_char c =
     (case map_of (zip ''ABCDEFGHIJKLMNOPQRSTUVWXYZ'' ''abcdefghijklmnopqrstuvwxyz'') c of
        Some d \<Rightarrow> d
      | None \<Rightarrow> c)"

definition ToLower :: "string \<Rightarrow> string" where
  "ToLower s = map lower_char s"

definition EqualFold :: "string \<Rightarrow> string \<Rightarrow> bool" where
  "EqualFold s t = (ToLower s = ToLower t)"

text \<open>\<^verbatim>\<open>strings.Split(s, sep)\<close> for a one-byte separator: never an empty list.\<close>

fun Split :: "string \<Rightarrow> char \<Rightarrow> string list" where
  "Split [] sep = [[]]"
| "Split (c # cs) sep =
     (if c = sep then [] # Split cs sep
      else (case Split cs sep of [] \<Rightarrow> [[c]] | p # ps \<Rightarrow> (c # p) # ps))"

fun Join :: "string list \<Rightarrow> string \<Rightarrow> string" where
  "Join [] sep = []"
| "Join [x] sep = x"
| "Join (x # y # ys) sep = x @ sep @ Join (y # ys) sep"

section \<open>Errors\<close>

text \<open>
  A Go \<^verbatim>\<open>error\<close> value is \<^verbatim>\<open>nil\<close> or an error; the model uses
  \<^typ>\<open>'e option\<close> with one constructor per \<^verbatim>\<open>fmt.Errorf\<close> site of the program.
\<close>

datatype error =
    NotDidWeb string
  | MissingProject string
  | ParseFailed error
  | NotGithubHost string
  | FetchFailed error
  | TransportError
  | HTTPStatus nat
  | SaveFailed error
  | MkdirFailed
  | WriteFailed
  | ReadFailed
  | DocNotParsable
  | NoIdField
  | IdMismatch string string
  | GitFailed error
  | Timeout
  | RemoteNotFound string
  | GetRemoteURLFailed
  | NotGitHubURL string
  | UsernameMismatch string string
  | RepoMismatch string string
  | CheckoutFailed string error
  | CurrentBranchFailed
  | CreateBranchFailed string
  | SwitchBranchFailed string
  | AddFailed
  | CommitFailed
  | PushFailed string

section \<open>Identifier resolver\<close>

record ParsedDID =
  Original :: string
  Host :: string
  Project :: string
  PathSegs :: "string list"
  HostLower :: string

definition parseDID :: "string \<Rightarrow> error + ParsedDID" where
  "parseDID did =
     (if \<not> HasPrefix did ''did:web:'' then Inl (NotDidWeb did)
      else let parts = Split did CHR '':'' in
        if length parts < 4 then Inl (MissingProject did)
        else Inr \<lparr>Original = did, Host = parts ! 2, Project = parts ! 3,
                  PathSegs = drop 4 parts, HostLower = ToLower (parts ! 2)\<rparr>)"

text \<open>The identity string that \<^verbatim>\<open>validateDIDDocumentID\<close> builds from a parsed identifier.\<close>

definition expectedID :: "ParsedDID \<Rightarrow> string" where
  "expectedID parsed =
     (let e = ''did:web:'' @ Host parsed @ '':'' @ Project parsed in
      if length (PathSegs parsed) > 0 then e @ '':'' @ Join (PathSegs parsed) '':'' else e)"

section \<open>Go path/filepath (Unix)\<close>

text \<open>
  \<^verbatim>\<open>filepath.Base\<close>, \<^verbatim>\<open>Dir\<close>, \<^verbatim>\<open>Clean\<close> and \<^verbatim>\<open>Join\<close> of the Go standard
  library, for the separator \<^verbatim>\<open>/\<close>. \<^verbatim>\<open>Clean\<close> drops empty and \<^verbatim>\<open>.\<close>
  elements, lets \<^verbatim>\<open>..\<close> remove the element before it (dropping it at the root, and
  keeping it at the start of a relative path), and returns \<^verbatim>\<open>.\<close> for an empty result.
\<close>

definition Base :: "string \<Rightarrow> string" where
  "Base path =
     (if path = [] then ''.''
      else let p = rev (dropWhile (\<lambda>c. c = CHR ''/'') (rev path));
               e = rev (takeWhile (\<lambda>c. c \<noteq> CHR ''/'') (rev p))
           in if e = [] then ''/'' else e)"

fun clean_elems :: "bool \<Rightarrow> string list \<Rightarrow> string list \<Rightarrow> string list" where
  "clean_elems rooted out [] = rev out"
| "clean_elems rooted out (e # es) =
     (if e = [] \<or> e = ''.'' then clean_elems rooted out es
      else if e = ''..'' then
        (case out of
           [] \<Rightarrow> if rooted then clean_elems rooted [] es else clean_elems rooted [''..''] es
         | x # xs \<Rightarrow>
             if x \<noteq> ''..'' then clean_elems rooted xs es
             else if rooted then clean_elems rooted out es
             else clean_elems rooted (''..'' # out) es)
      else clean_elems rooted (e # out) es)"

definition Clean :: "string \<Rightarrow> string" where
  "Clean path =
     (if path = [] then ''.''
      else let rooted = (hd path = CHR ''/'');
               out = clean_elems rooted [] (Split path CHR ''/'');
               s = (if rooted then ''/'' else []) @ Join out ''/''
           in if s = [] then ''.'' else s)"

definition Dir :: "string \<Rightarrow> string" where
  "Dir path = Clean (rev (dropWhile (\<lambda>c. c \<noteq> CHR ''/'') (rev path)))"

definition filepath_Join :: "string list \<Rightarrow> string" where
  "filepath_Join elem =
     (let es = dropWhile (\<lambda>e. e = []) elem in if es = [] then [] else Clean (Join es ''/''))"

subsection \<open>Target file\<close>

text \<open>
  The loop of \<^verbatim>\<open>determineTargetFile\<close>: while the first segment equals the last
  component of \<^verbatim>\<open>cwd\<close>, drop the segment and move \<^verbatim>\<open>cwd\<close> to its parent.
  \<^verbatim>\<open>cwd\<close> is what \<^verbatim>\<open>os.Getwd\<close> returned (the empty string when it failed:
  the program ignores the error).
\<close>

fun trimSegs :: "string \<Rightarrow> string list \<Rightarrow> string list" where
  "trimSegs cwd [] = []"
| "trimSegs cwd (s # segs) = (if Base cwd = s then trimSegs (Dir cwd) segs else s # segs)"

definition determineTargetFile :: "string \<Rightarrow> ParsedDID \<Rightarrow> string" where
  "determineTargetFile cwd parsed =
     (let trimmedSegs = trimSegs cwd (PathSegs parsed);
          targetDir = (if length trimmedSegs > 0 then Join trimmedSegs ''/'' else ''.'')
      in filepath_Join [targetDir, ''did.json''])"

text \<open>
  The path as the specification words it. The components of the working directory are
  its non-empty parts between separators. The leading segments stripped are the longest
  run of leading segments that equals, in the same order, the run of the same length at
  the end of the components. The result is the namespace, then the segments left, then
  \<^verbatim>\<open>document.json\<close>.
\<close>

definition cwd_components :: "string \<Rightarrow> string list" where
  "cwd_components cwd = filter (\<lambda>e. e \<noteq> []) (Split cwd CHR ''/'')"

fun spec_count :: "string list \<Rightarrow> string list \<Rightarrow> nat \<Rightarrow> nat" where
  "spec_count comps segs 0 = 0"
| "spec_count comps segs (Suc k) =
     (if take (Suc k) segs = drop (length comps - Suc k) comps then Suc k
      else spec_count comps segs k)"

definition spec_strip :: "string \<Rightarrow> string list \<Rightarrow> string list" where
  "spec_strip cwd segs =
     (let comps = cwd_components cwd
      in drop (spec_count comps segs (min (length segs) (length comps))) segs)"


section \<open>The outside world\<close>

record Config =
  ServerURL :: string
  Branch :: string
  GitRemote :: string
  CommitMsg :: string
  DryRun :: bool
  Port :: string
  BatchTimeout :: nat
  BatchSize :: int

record BatchItem =
  TargetFile :: string
  ParsedDID :: ParsedDID
  ResponseCh :: nat

text \<open>
  Every interaction of the program with its surroundings is an \<open>io\<close> request: an HTTP
  GET (URL and \<^verbatim>\<open>Host\<close> header), \<^verbatim>\<open>os.Getwd\<close>, \<^verbatim>\<open>os.MkdirAll\<close>,
  \<^verbatim>\<open>os.WriteFile\<close>, \<^verbatim>\<open>os.ReadFile\<close>, a command run with \<^verbatim>\<open>exec.Command\<close>
  (its argument vector), a log line, and the send of an item on \<^verbatim>\<open>batchCh\<close>. The
  surroundings answer \<open>Failed\<close> (a non-nil error), \<open>Succeeded out\<close> (with the output
  or content read) or, for HTTP, \<open>Status code body\<close>. The trace lists the requests made
  so far with their answers; an environment is any function from the trace so far and the
  request to an answer, so the theorems below hold whatever the file system, the network
  and git do. A log line carries the text of the program's message, without the pictograph
  some of them start with; its answer, like that of a send, is not consulted.
\<close>

datatype io =
    HttpGet string string
  | Getwd
  | MkdirAll string
  | WriteFile string string
  | ReadFile string
  | Exec "string list"
  | Log string
  | LogWarn error
  | Enqueue BatchItem

datatype resp = Failed | Succeeded string | Status nat string

type_synonym trace = "(io \<times> resp) list"

type_synonym env = "trace \<Rightarrow> io \<Rightarrow> resp"

definition perform :: "env \<Rightarrow> io \<Rightarrow> trace \<Rightarrow> resp \<times> trace" where
  "perform env a tr = (let r = env tr a in (r, tr @ [(a, r)]))"

definition emit :: "io \<Rightarrow> trace \<Rightarrow> trace" where
  "emit a tr = tr @ [(a, Succeeded [])]"

text \<open>
  The pure library functions the program calls and the model does not write out:
  \<^verbatim>\<open>json.Unmarshal\<close> into \<^verbatim>\<open>interface{}\<close> and into a map,
  \<^verbatim>\<open>json.MarshalIndent\<close>, the type assertion to a string, and whether
  \<^verbatim>\<open>http.NewRequest\<close> accepts a URL. \<open>None\<close> is a non-nil error.
\<close>

record 'j lib =
  Unmarshal :: "string \<Rightarrow> 'j option"
  MarshalIndent :: "'j \<Rightarrow> string option"
  UnmarshalObject :: "string \<Rightarrow> (string \<Rightarrow> 'j option) option"
  AsString :: "'j \<Rightarrow> string option"
  NewRequestOK :: "string \<Rightarrow> bool"

text \<open>Decimal digits of a number, for \<^verbatim>\<open>%d\<close>.\<close>

fun show_nat :: "nat \<Rightarrow> string" where
  "show_nat n =
     (if n < 10 then [''0123456789'' ! n]
      else show_nat (n div 10) @ [''0123456789'' ! (n mod 10)])"

declare show_nat.simps [simp del]

definition is_space :: "char \<Rightarrow> bool" where
  "is_space c = (c = CHR '' '' \<or> c = CHR 0x09 \<or> c = CHR 0x0A \<or> c = CHR 0x0B
                 \<or> c = CHR 0x0C \<or> c = CHR 0x0D)"

definition TrimSpace :: "string \<Rightarrow> string" where
  "TrimSpace s = rev (dropWhile is_space (rev (dropWhile is_space s)))"

section \<open>Document fetcher\<close>

definition buildFetchURL :: "Config \<Rightarrow> ParsedDID \<Rightarrow> string" where
  "buildFetchURL cfg parsed =
     (let urlPath = (if length (PathSegs parsed) > 0
                     then Project parsed @ ''/'' @ Join (PathSegs parsed) ''/''
                     else Project parsed)
      in ServerURL cfg @ ''/'' @ urlPath @ ''/did.json'')"

definition fetchDIDDocument ::
  "'j lib \<Rightarrow> env \<Rightarrow> string \<Rightarrow> string \<Rightarrow> trace \<Rightarrow> (error + string) \<times> trace" where
  "fetchDIDDocument lib env url host tr =
     (if \<not> NewRequestOK lib url then (Inl TransportError, tr)
      else let tr1 = emit (Log (''Making request to '' @ url @ '' with Host header: '' @ host)) tr in
        (case perform env (HttpGet url host) tr1 of
           (Status code body, tr2) \<Rightarrow>
             if code \<noteq> 200 then (Inl (HTTPStatus code), tr2) else (Inr body, tr2)
         | (_, tr2) \<Rightarrow> (Inl TransportError, tr2)))"

definition saveDIDDocument ::
  "'j lib \<Rightarrow> env \<Rightarrow> string \<Rightarrow> string \<Rightarrow> trace \<Rightarrow> error option \<times> trace" where
  "saveDIDDocument lib env data targetFile tr =
     (let dir = Dir targetFile in
      case perform env (MkdirAll dir) tr of
        (Failed, tr1) \<Rightarrow> (Some MkdirFailed, tr1)
      | (_, tr1) \<Rightarrow>
          let (formattedData, tr2) =
                (case Unmarshal lib data of
                   Some jsonObj \<Rightarrow>
                     (case MarshalIndent lib jsonObj of
                        Some formatted \<Rightarrow> (formatted, tr1)
                      | None \<Rightarrow> (data, tr1))
                 | None \<Rightarrow> (data, emit (Log ''Warning: invalid JSON, saving raw'') tr1))
          in case perform env (WriteFile targetFile formattedData) tr2 of
               (Failed, tr3) \<Rightarrow> (Some WriteFailed, tr3)
             | (_, tr3) \<Rightarrow> (None, tr3))"

definition validateDIDDocumentID ::
  "'j lib \<Rightarrow> env \<Rightarrow> string \<Rightarrow> ParsedDID \<Rightarrow> trace \<Rightarrow> error option \<times> trace" where
  "validateDIDDocumentID lib env targetFile parsed tr =
     (case perform env (ReadFile targetFile) tr of
        (Succeeded data, tr1) \<Rightarrow>
          (case UnmarshalObject lib data of
             None \<Rightarrow> (Some DocNotParsable, tr1)
           | Some doc \<Rightarrow>
               (case (case doc ''id'' of None \<Rightarrow> None | Some v \<Rightarrow> AsString lib v) of
                  None \<Rightarrow> (Some NoIdField, tr1)
                | Some docID \<Rightarrow>
                    if docID = [] then (Some NoIdField, tr1)
                    else if docID \<noteq> expectedID parsed
                    then (Some (IdMismatch docID (expectedID parsed)), tr1)
                    else (None, tr1)))
      | (_, tr1) \<Rightarrow> (Some ReadFailed, tr1))"

section \<open>Repository publisher\<close>

text \<open>
  A command succeeds when \<^verbatim>\<open>Run\<close> (or \<^verbatim>\<open>Output\<close>) returns a nil error, that is
  when the environment answers \<open>Succeeded out\<close>, \<open>out\<close> being its standard output.
\<close>

definition checkGitRemote :: "Config \<Rightarrow> env \<Rightarrow> trace \<Rightarrow> error option \<times> trace" where
  "checkGitRemote cfg env tr =
     (case perform env (Exec [''git'', ''remote'', ''get-url'', GitRemote cfg]) tr of
        (Succeeded out, tr1) \<Rightarrow> (None, tr1)
      | (_, tr1) \<Rightarrow> (Some (RemoteNotFound (GitRemote cfg)), tr1))"

definition getRemoteURL :: "Config \<Rightarrow> env \<Rightarrow> trace \<Rightarrow> (error + string) \<times> trace" where
  "getRemoteURL cfg env tr =
     (case perform env (Exec [''git'', ''remote'', ''get-url'', GitRemote cfg]) tr of
        (Succeeded out, tr1) \<Rightarrow> (Inr (TrimSpace out), tr1)
      | (_, tr1) \<Rightarrow> (Inl GetRemoteURLFailed, tr1))"

text \<open>
  The two regular expressions of \<^verbatim>\<open>parseGitHubURL\<close>,
  \<^verbatim>\<open>^git@github\.com:([^/]+)/([^/]+)(\.git)?$\<close> and
  \<^verbatim>\<open>^https://github\.com/([^/]+)/([^/]+)(\.git)?$\<close>, match when what follows the
  fixed prefix is two non-empty parts without \<^verbatim>\<open>/\<close>, separated by one \<^verbatim>\<open>/\<close>.
  The second group is greedy, so it takes a trailing \<^verbatim>\<open>.git\<close>, which
  \<^verbatim>\<open>TrimSuffix\<close> then removes.
\<close>

definition match_user_repo :: "string \<Rightarrow> string \<Rightarrow> (string \<times> string) option" where
  "match_user_repo pre url =
     (if HasPrefix url pre then
        (case Split (drop (length pre) url) CHR ''/'' of
           [u, r] \<Rightarrow> if u \<noteq> [] \<and> r \<noteq> [] then Some (u, r) else None
         | _ \<Rightarrow> None)
      else None)"

definition parseGitHubURL :: "string \<Rightarrow> error + (string \<times> string)" where
  "parseGitHubURL remoteURL =
     (case match_user_repo ''git@github.com:'' remoteURL of
        Some (u, r) \<Rightarrow> Inr (u, TrimSuffix r ''.git'')
      | None \<Rightarrow>
          (case match_user_repo ''https://github.com/'' remoteURL of
             Some (u, r) \<Rightarrow> Inr (u, TrimSuffix r ''.git'')
           | None \<Rightarrow> Inl (NotGitHubURL remoteURL)))"

definition checkoutOrCreateBranch :: "env \<Rightarrow> string \<Rightarrow> trace \<Rightarrow> error option \<times> trace" where
  "checkoutOrCreateBranch env branch tr =
     (case perform env (Exec [''git'', ''rev-parse'', ''--abbrev-ref'', ''HEAD'']) tr of
        (Succeeded out, tr1) \<Rightarrow>
          if TrimSpace out = branch then (None, tr1)
          else
            (case perform env (Exec [''git'', ''rev-parse'', ''--verify'', branch]) tr1 of
               (Succeeded out2, tr2) \<Rightarrow>
                 (case perform env (Exec [''git'', ''checkout'', branch]) tr2 of
                    (Succeeded out3, tr3) \<Rightarrow> (None, tr3)
                  | (_, tr3) \<Rightarrow> (Some (SwitchBranchFailed branch), tr3))
             | (_, tr2) \<Rightarrow>
                 (case perform env (Exec [''git'', ''checkout'', ''-b'', branch]) tr2 of
                    (Succeeded out3, tr3) \<Rightarrow> (None, tr3)
                  | (_, tr3) \<Rightarrow> (Some (CreateBranchFailed branch), tr3)))
      | (_, tr1) \<Rightarrow> (Some CurrentBranchFailed, tr1))"

definition executeBatchedGitCommands ::
  "Config \<Rightarrow> env \<Rightarrow> BatchItem list \<Rightarrow> trace \<Rightarrow> error option \<times> trace" where
  "executeBatchedGitCommands cfg env batch tr =
     (case checkoutOrCreateBranch env (Branch cfg) tr of
        (Some e, tr1) \<Rightarrow> (Some (CheckoutFailed (Branch cfg) e), tr1)
      | (None, tr1) \<Rightarrow>
          let filesToAdd = map TargetFile batch in
          (case perform env (Exec ([''git'', ''add''] @ filesToAdd)) tr1 of
             (Succeeded out, tr2) \<Rightarrow>
               (case perform env (Exec [''git'', ''diff'', ''--cached'', ''--quiet'']) tr2 of
                  (Succeeded out2, tr3) \<Rightarrow>
                    (None, emit (Log ''No staged changes in batch, skipping commit'') tr3)
                | (_, tr3) \<Rightarrow>
                    let fileList = map TargetFile batch;
                        commitMsg = CommitMsg cfg @ '' ('' @ show_nat (length batch)
                                      @ '' files): '' @ Join fileList '', ''
                    in (case perform env (Exec [''git'', ''commit'', ''-m'', commitMsg]) tr3 of
                          (Succeeded out3, tr4) \<Rightarrow>
                            (case perform env
                                    (Exec [''git'', ''push'', ''-u'', GitRemote cfg, Branch cfg]) tr4 of
                               (Succeeded out4, tr5) \<Rightarrow> (None, tr5)
                             | (_, tr5) \<Rightarrow> (Some (PushFailed (Branch cfg)), tr5))
                        | (_, tr4) \<Rightarrow> (Some CommitFailed, tr4)))
           | (_, tr2) \<Rightarrow> (Some AddFailed, tr2)))"

text \<open>
  One iteration of the validation loop of \<^verbatim>\<open>performBatchedGitOperations\<close>.
  \<open>seenHosts\<close> is the list of the keys set to true in the map \<^verbatim>\<open>seenHosts\<close>; the
  result is the error returned, or the keys after the iteration.
\<close>

definition validate_item ::
  "Config \<Rightarrow> env \<Rightarrow> string list \<Rightarrow> BatchItem \<Rightarrow> trace \<Rightarrow> (error + string list) \<times> trace" where
  "validate_item cfg env seenHosts item tr =
     (case checkGitRemote cfg env tr of
        (Some e, tr1) \<Rightarrow> (Inl e, tr1)
      | (None, tr1) \<Rightarrow>
          let hostKey = HostLower (ParsedDID item) in
          if hostKey \<notin> set seenHosts then
            (case getRemoteURL cfg env tr1 of
               (Inl e, tr2) \<Rightarrow> (Inl e, tr2)
             | (Inr remoteURL, tr2) \<Rightarrow>
                 (case parseGitHubURL remoteURL of
                    Inl e \<Rightarrow> (Inl e, tr2)
                  | Inr (ghUser, ghRepo) \<Rightarrow>
                      let expectedUser = TrimSuffix (HostLower (ParsedDID item)) ''.github.io'' in
                      if \<not> EqualFold ghUser expectedUser
                      then (Inl (UsernameMismatch expectedUser ghUser), tr2)
                      else if \<not> EqualFold ghRepo (Project (ParsedDID item))
                      then (Inl (RepoMismatch (Project (ParsedDID item)) ghRepo), tr2)
                      else (Inr (hostKey # seenHosts),
                            emit (Log (''Validation passed for host '' @ hostKey @ '' (user: ''
                                       @ ghUser @ '', repo: '' @ ghRepo @ '')'')) tr2)))
          else (Inr seenHosts, tr1))"

fun validate_batch ::
  "Config \<Rightarrow> env \<Rightarrow> string list \<Rightarrow> BatchItem list \<Rightarrow> BatchItem list \<Rightarrow> trace
     \<Rightarrow> (error + BatchItem list) \<times> trace" where
  "validate_batch cfg env seenHosts validatedItems [] tr = (Inr validatedItems, tr)"
| "validate_batch cfg env seenHosts validatedItems (item # rest) tr =
     (case validate_item cfg env seenHosts item tr of
        (Inl e, tr1) \<Rightarrow> (Inl e, tr1)
      | (Inr seen1, tr1) \<Rightarrow>
          validate_batch cfg env seen1 (validatedItems @ [item]) rest tr1)"

text \<open>
  \<^verbatim>\<open>performBatchedGitOperations\<close>. The mutex it holds orders flushes; the model
  is sequential, so the lock has no counterpart here.
\<close>

definition performBatchedGitOperations ::
  "Config \<Rightarrow> env \<Rightarrow> BatchItem list \<Rightarrow> trace \<Rightarrow> error option \<times> trace" where
  "performBatchedGitOperations cfg env batch tr =
     (if length batch = 0 then (None, tr)
      else
        let tr0 = emit (Log (''Acquired git lock for batch of '' @ show_nat (length batch)
                             @ '' files'')) tr in
        (case validate_batch cfg env [] [] batch tr0 of
           (Inl e, tr1) \<Rightarrow> (Some e, tr1)
         | (Inr validatedItems, tr1) \<Rightarrow>
             (case executeBatchedGitCommands cfg env validatedItems tr1 of
                (Some e, tr2) \<Rightarrow> (Some e, tr2)
              | (None, tr2) \<Rightarrow>
                  (None, emit (Log (''Pushed batch of '' @ show_nat (length validatedItems)
                                    @ '' files to '' @ Branch cfg)) tr2))))"

text \<open>The git subcommand of a request: the second word of the command line.\<close>

definition git_subcommand :: "io \<Rightarrow> string" where
  "git_subcommand a = (case a of Exec (g # w # ws) \<Rightarrow> w | _ \<Rightarrow> [])"

section \<open>Batch coordinator\<close>

text \<open>
  The state of \<^verbatim>\<open>gitBatchProcessor\<close>: the slice \<open>batch\<close>, the time the ticker is
  next due, and the trace. \<open>chans\<close> gives, for every response channel, the values sent
  on it with the time of the send; the channels are made with capacity 1, and
  \<^verbatim>\<open>processBatch\<close> sends without blocking, so a value is dropped when the buffer is
  full. \<open>flushed\<close> lists the batches handed to \<^verbatim>\<open>performBatchedGitOperations\<close>, in
  order, and \<open>exited\<close> says that the loop has returned.
\<close>

record proc_state =
  batch :: "BatchItem list"
  chans :: "nat \<Rightarrow> (nat \<times> error option) list"
  io_trace :: trace
  ticker_due :: nat
  flushed :: "BatchItem list list"
  exited :: bool

text \<open>
  What the \<^verbatim>\<open>select\<close> of the loop receives: an item from \<^verbatim>\<open>batchCh\<close>, a tick of
  the ticker, or the closing of \<^verbatim>\<open>batchCh\<close>. Every event comes with the time at which
  it is received.
\<close>

datatype event = Recv BatchItem | Tick | Closed

definition init_state :: "Config \<Rightarrow> nat \<Rightarrow> proc_state" where
  "init_state cfg now =
     \<lparr>batch = [], chans = (\<lambda>c. []), io_trace = [], ticker_due = now + BatchTimeout cfg,
      flushed = [], exited = False\<rparr>"

fun send_results ::
  "nat \<Rightarrow> error option \<Rightarrow> BatchItem list \<Rightarrow> (nat \<Rightarrow> (nat \<times> error option) list)
     \<Rightarrow> (nat \<Rightarrow> (nat \<times> error option) list)" where
  "send_results now err [] ch = ch"
| "send_results now err (item # items) ch =
     send_results now err items
       (if length (ch (ResponseCh item)) < 1
        then ch(ResponseCh item := ch (ResponseCh item) @ [(now, err)])
        else ch)"

definition processBatch :: "Config \<Rightarrow> env \<Rightarrow> nat \<Rightarrow> proc_state \<Rightarrow> proc_state" where
  "processBatch cfg env now st =
     (if length (batch st) = 0 then st
      else
        let tr0 = emit (Log (''Processing git batch with '' @ show_nat (length (batch st))
                             @ '' items'')) (io_trace st);
            (err, tr1) = performBatchedGitOperations cfg env (batch st) tr0
        in st\<lparr>batch := [],
               chans := send_results now err (batch st) (chans st),
               io_trace := tr1,
               ticker_due := now + BatchTimeout cfg,
               flushed := flushed st @ [batch st]\<rparr>)"

definition step :: "Config \<Rightarrow> env \<Rightarrow> proc_state \<Rightarrow> nat \<times> event \<Rightarrow> proc_state" where
  "step cfg env st te =
     (if exited st then st
      else case snd te of
        Closed \<Rightarrow> (processBatch cfg env (fst te) st)\<lparr>exited := True\<rparr>
      | Recv item \<Rightarrow>
          let st1 = st\<lparr>batch := batch st @ [item]\<rparr> in
          if int (length (batch st1)) \<ge> BatchSize cfg then processBatch cfg env (fst te) st1
          else st1
      | Tick \<Rightarrow> processBatch cfg env (fst te) (st\<lparr>ticker_due := fst te + BatchTimeout cfg\<rparr>))"

definition gitBatchProcessor ::
  "Config \<Rightarrow> env \<Rightarrow> proc_state \<Rightarrow> (nat \<times> event) list \<Rightarrow> proc_state" where
  "gitBatchProcessor cfg env st evs = foldl (step cfg env) st evs"

text \<open>
  Handing the batches of a list to the publisher one after the other, each as
  \<^verbatim>\<open>processBatch\<close> does it (its log line, then \<^verbatim>\<open>performBatchedGitOperations\<close> on
  the batch, on the trace left by the batch before): the outcomes, in order, and the trace
  at the end. \<open>recv_items\<close> lists the items that a list of events brings.
\<close>

definition publish_step ::
  "Config \<Rightarrow> env \<Rightarrow> error option list \<times> trace \<Rightarrow> BatchItem list \<Rightarrow> error option list \<times> trace" where
  "publish_step cfg env acc b =
     (let tr0 = emit (Log (''Processing git batch with '' @ show_nat (length b) @ '' items''))
                  (snd acc);
          (err, tr1) = performBatchedGitOperations cfg env b tr0
      in (fst acc @ [err], tr1))"

definition publish_all ::
  "Config \<Rightarrow> env \<Rightarrow> BatchItem list list \<Rightarrow> trace \<Rightarrow> error option list \<times> trace" where
  "publish_all cfg env bs tr = foldl (publish_step cfg env) ([], tr) bs"

fun recv_items :: "(nat \<times> event) list \<Rightarrow> BatchItem list" where
  "recv_items [] = []"
| "recv_items ((t, Recv item) # evs) = item # recv_items evs"
| "recv_items ((t, Tick) # evs) = recv_items evs"
| "recv_items ((t, Closed) # evs) = recv_items evs"

text \<open>
  The trace of a state is the trace of handing its flushed batches to the publisher, and
  the channel of every flushed item holds the outcome of its batch, the other channels
  being empty.
\<close>

definition trace_replayed :: "Config \<Rightarrow> env \<Rightarrow> proc_state \<Rightarrow> bool" where
  "trace_replayed cfg env st = (io_trace st = snd (publish_all cfg env (flushed st) []))"

definition handles_signalled :: "Config \<Rightarrow> env \<Rightarrow> proc_state \<Rightarrow> bool" where
  "handles_signalled cfg env st =
     ((\<forall>i<length (flushed st). \<forall>item\<in>set (flushed st ! i).
          map snd (chans st (ResponseCh item)) = [fst (publish_all cfg env (flushed st) []) ! i])
      \<and> (\<forall>h. h \<notin> ResponseCh ` set (concat (flushed st)) \<longrightarrow> chans st h = []))"

subsection \<open>Admission\<close>

text \<open>
  \<^verbatim>\<open>batchGitOperation\<close> is a \<^verbatim>\<open>select\<close> between the send on \<^verbatim>\<open>batchCh\<close> and
  \<^verbatim>\<open>time.After(30 * time.Second)\<close>; when the send is taken, it receives from the
  response channel, outside the \<^verbatim>\<open>select\<close>. What the caller sees of the rest of the
  system is when \<^verbatim>\<open>batchCh\<close> can take the item (\<open>send_ready\<close>, \<open>None\<close> when it never
  can) and when a value arrives on the response channel, with the value (\<open>signal\<close>,
  \<open>None\<close> when none ever arrives). Times are in seconds from the call. The result is
  the time of the return and the error returned, or \<open>None\<close> when the call never
  returns. The send is recorded in the trace. When the send becomes possible at second
  30 exactly Go chooses either branch; the model takes the timeout.
\<close>

record sched =
  send_ready :: "nat option"
  signal :: "(nat \<times> error option) option"

definition batchGitOperation ::
  "sched \<Rightarrow> BatchItem \<Rightarrow> trace \<Rightarrow> (nat \<times> error option) option \<times> trace" where
  "batchGitOperation sc batchItem tr =
     (case send_ready sc of
        Some ts \<Rightarrow>
          if ts < 30 then
            (case signal sc of
               Some (t, r) \<Rightarrow> (Some (max ts t, r), emit (Enqueue batchItem) tr)
             | None \<Rightarrow> (None, emit (Enqueue batchItem) tr))
          else (Some (30, Some Timeout), tr)
      | None \<Rightarrow> (Some (30, Some Timeout), tr))"

text \<open>What a caller receives on a response channel: the first value sent on it.\<close>

definition signal_of :: "proc_state \<Rightarrow> nat \<Rightarrow> (nat \<times> error option) option" where
  "signal_of st c = (case chans st c of [] \<Rightarrow> None | v # vs \<Rightarrow> Some v)"

section \<open>Request handling\<close>

definition processDID ::
  "Config \<Rightarrow> 'j lib \<Rightarrow> env \<Rightarrow> sched \<Rightarrow> nat \<Rightarrow> string \<Rightarrow> trace
     \<Rightarrow> error option option \<times> trace" where
  "processDID cfg lib env sc ch did tr =
     (case parseDID did of
        Inl e \<Rightarrow> (Some (Some (ParseFailed e)), tr)
      | Inr parsedDID \<Rightarrow>
          if \<not> HasSuffix (ToLower (Host parsedDID)) ''.github.io''
          then (Some (Some (NotGithubHost (Host parsedDID))), tr)
          else
            let fetchURL = buildFetchURL cfg parsedDID;
                tr1 = emit (Log (''Fetching DID document from: '' @ fetchURL)) tr
            in (case fetchDIDDocument lib env fetchURL (Host parsedDID) tr1 of
                  (Inl e, tr2) \<Rightarrow> (Some (Some (FetchFailed e)), tr2)
                | (Inr didDoc, tr2) \<Rightarrow>
                    let (r, tr3) = perform env Getwd tr2;
                        cwd = (case r of Succeeded d \<Rightarrow> d | _ \<Rightarrow> []);
                        targetFile = determineTargetFile cwd parsedDID;
                        tr4 = emit (Log (''Target file: '' @ targetFile)) tr3
                    in (case saveDIDDocument lib env didDoc targetFile tr4 of
                          (Some e, tr5) \<Rightarrow> (Some (Some (SaveFailed e)), tr5)
                        | (None, tr5) \<Rightarrow>
                            let tr6 = (case validateDIDDocumentID lib env targetFile parsedDID tr5 of
                                         (Some e, t) \<Rightarrow> emit (LogWarn e) t
                                       | (None, t) \<Rightarrow> t)
                            in if \<not> DryRun cfg then
                                 (case batchGitOperation sc
                                         \<lparr>TargetFile = targetFile, ParsedDID = parsedDID,
                                          ResponseCh = ch\<rparr> tr6 of
                                    (None, tr7) \<Rightarrow> (None, tr7)
                                  | (Some (t, Some e), tr7) \<Rightarrow> (Some (Some (GitFailed e)), tr7)
                                  | (Some (t, None), tr7) \<Rightarrow> (Some None, tr7))
                               else (Some None,
                                     emit (Log ''Dry run: skipping git operations'') tr6))))"

section \<open>Inputs for the witnesses\<close>

text \<open>
  A small JSON library (it reads the empty object only) and an environment in which every
  request succeeds with empty output.
\<close>

definition demo_lib :: "unit lib" where
  "demo_lib =
     \<lparr>Unmarshal = (\<lambda>s. if s = ''{ }'' \<or> s = ''{}'' then Some () else None),
      MarshalIndent = (\<lambda>j. Some ''{}''),
      UnmarshalObject = (\<lambda>s. if s = ''{ }'' \<or> s = ''{}'' then Some (\<lambda>k. None) else None),
      AsString = (\<lambda>j. None),
      NewRequestOK = (\<lambda>u. True)\<rparr>"

definition ok_env :: env where
  "ok_env tr a = Succeeded []"

definition demo_cfg :: Config where
  "demo_cfg =
     \<lparr>ServerURL = ''http://localhost:3332'', Branch = ''gh-pages'', GitRemote = ''origin'',
      CommitMsg = ''chore (did): update did:web documents'', DryRun = False,
      Port = ''8080'', BatchTimeout = 5, BatchSize = 3\<rparr>"

definition demo_did :: "string \<Rightarrow> string list \<Rightarrow> ParsedDID" where
  "demo_did project segs =
     \<lparr>Original = Join ([''did'', ''web'', ''alice.github.io'', project] @ segs) '':'',
      Host = ''alice.github.io'', Project = project, PathSegs = segs,
      HostLower = ''alice.github.io''\<rparr>"

definition demo_item :: "string \<Rightarrow> string \<Rightarrow> nat \<Rightarrow> BatchItem" where
  "demo_item project seg c =
     \<lparr>TargetFile = seg @ ''/did.json'', ParsedDID = demo_did project [seg], ResponseCh = c\<rparr>"

text \<open>
  A git in which every command succeeds, \<^verbatim>\<open>git remote get-url origin\<close> prints the
  given URL, and \<^verbatim>\<open>git diff --cached --quiet\<close> succeeds exactly when nothing is
  staged (\<open>clean\<close>).
\<close>

definition git_env :: "string \<Rightarrow> bool \<Rightarrow> env" where
  "git_env url clean tr a =
     (case a of
        Exec args \<Rightarrow>
          if args = [''git'', ''remote'', ''get-url'', ''origin''] then Succeeded (url @ [CHR 0x0A])
          else if args = [''git'', ''diff'', ''--cached'', ''--quiet'']
          then (if clean then Succeeded [] else Failed)
          else Succeeded []
      | _ \<Rightarrow> Succeeded [])"

text \<open>The definitions unfolded to evaluate the publisher on these inputs.\<close>

lemmas eval_defs =
  performBatchedGitOperations_def validate_item_def checkGitRemote_def getRemoteURL_def
  parseGitHubURL_def match_user_repo_def executeBatchedGitCommands_def
  checkoutOrCreateBranch_def perform_def emit_def git_env_def demo_cfg_def demo_item_def
  demo_did_def TrimSpace_def is_space_def TrimSuffix_def HasSuffix_def HasPrefix_def
  EqualFold_def ToLower_def lower_char_def Let_def show_nat.simps

section \<open>Lemmas on splitting and joining\<close>

lemma Split_not_Nil: "Split s c \<noteq> []"
  by (induction s) (auto split: list.splits)

lemma Join_Split: "Join (Split s c) [c] = s"
proof (induction s)
  case Nil
  show ?case by simp
next
  case (Cons a s)
  obtain p ps where sp: "Split s c = p # ps"
    using Split_not_Nil [of s c] by (cases "Split s c") auto
  show ?case
  proof (cases "a = c")
    case True
    then show ?thesis using Cons sp by simp
  next
    case False
    then show ?thesis using Cons sp by (cases ps) auto
  qed
qed

lemma Split_no_sep: "c \<notin> set x \<Longrightarrow> Split x c = [x]"
  by (induction x) auto

lemma Split_append_sep: "c \<notin> set x \<Longrightarrow> Split (x @ c # r) c = x # Split r c"
  by (induction x) (auto split: list.splits)

lemma Split_Join_plain:
  "xs \<noteq> [] \<Longrightarrow> list_all (\<lambda>x. c \<notin> set x) xs \<Longrightarrow> Split (Join xs [c]) c = xs"
proof (induction xs "[c]" rule: Join.induct)
  case 1
  then show ?case by simp
next
  case (2 x)
  then show ?case by (simp add: Split_no_sep)
next
  case (3 x y ys)
  then show ?case by (simp add: Split_append_sep)
qed

lemma Join_nonempty_hd:
  "es \<noteq> [] \<Longrightarrow> hd es \<noteq> [] \<Longrightarrow> Join es sep \<noteq> [] \<and> hd (Join es sep) = hd (hd es)"
  by (induction es sep rule: Join.induct) auto

lemma Join_snoc: "xs \<noteq> [] \<Longrightarrow> Join (xs @ [y]) sep = Join xs sep @ sep @ y"
  by (induction xs sep rule: Join.induct) auto

lemma Split_prefix_did:
  "Split (''did:web:'' @ r) CHR '':'' = ''did'' # ''web'' # Split r CHR '':''"
  by (cases "Split r CHR '':''") (simp_all add: Split_not_Nil)

lemma HasPrefix_append: "HasPrefix s p \<Longrightarrow> s = p @ drop (length p) s"
  by (metis HasPrefix_def append_take_drop_id)

section \<open>Parsing an identifier and rebuilding it\<close>

text \<open>
  C10. For every identifier that \<^verbatim>\<open>parseDID\<close> accepts, the identity string that
  \<^verbatim>\<open>validateDIDDocumentID\<close> rebuilds from the parsed host, project and path
  segments is the identifier itself.
\<close>

theorem parse_expectedID_roundtrip:
  "parseDID did = Inr parsed \<Longrightarrow> expectedID parsed = did"
proof -
  assume a: "parseDID did = Inr parsed"
  define r where "r = drop (length ''did:web:'') did"
  have pre: "HasPrefix did ''did:web:''"
    using a by (auto simp: parseDID_def split: if_splits)
  have did: "did = ''did:web:'' @ r"
    using HasPrefix_append [OF pre] by (simp add: r_def)
  obtain h rest where sr: "Split r CHR '':'' = h # rest"
    using Split_not_Nil [of r] by (cases "Split r CHR '':''") auto
  have parts: "Split did CHR '':'' = ''did'' # ''web'' # h # rest"
    using did Split_prefix_did sr by simp
  have "rest \<noteq> []"
    using a pre parts by (auto simp: parseDID_def Let_def split: if_splits)
  then obtain p segs where rest: "rest = p # segs" by (cases rest) auto
  have parsed: "parsed = \<lparr>Original = did, Host = h, Project = p, PathSegs = segs,
                          HostLower = ToLower h\<rparr>"
    using a pre parts rest by (auto simp: parseDID_def Let_def split: if_splits)
  have "Join (Split did CHR '':'') '':'' = did" by (rule Join_Split)
  then have j: "Join (''did'' # ''web'' # h # p # segs) '':'' = did"
    using parts rest by simp
  show ?thesis
  proof (cases segs)
    case Nil
    then show ?thesis using j parsed by (simp add: expectedID_def)
  next
    case (Cons s ss)
    then show ?thesis using j parsed by (simp add: expectedID_def)
  qed
qed

theorem parse_expectedID_roundtrip_witness:
  "parseDID ''did:web:alice.github.io:pages:a:b'' = Inr (demo_did ''pages'' [''a'', ''b''])
   \<and> expectedID (demo_did ''pages'' [''a'', ''b'']) = ''did:web:alice.github.io:pages:a:b''"
proof -
  have p: "parseDID ''did:web:alice.github.io:pages:a:b'' = Inr (demo_did ''pages'' [''a'', ''b''])"
    by (simp add: parseDID_def demo_did_def HasPrefix_def ToLower_def lower_char_def Let_def)
  note c = parse_expectedID_roundtrip [OF p]
  show ?thesis using p c by - (intro conjI, assumption+)
qed

section \<open>The host check\<close>

text \<open>
  C8, as the specification states it, fails: \<^verbatim>\<open>parseDID\<close> does not look at the host
  suffix. It accepts an identifier whose host is \<^verbatim>\<open>example.com\<close>.
\<close>

theorem parseDID_suffix_counterexample:
  "\<not> HasSuffix ''example.com'' ''.github.io''
   \<and> parseDID ''did:web:example.com:pages''
       = Inr \<lparr>Original = ''did:web:example.com:pages'', Host = ''example.com'',
              Project = ''pages'', PathSegs = [], HostLower = ''example.com''\<rparr>"
  by (simp add: parseDID_def HasPrefix_def HasSuffix_def ToLower_def lower_char_def Let_def)

text \<open>
  C8, amended. \<^verbatim>\<open>parseDID\<close> accepts every identifier that starts with
  \<^verbatim>\<open>did:web:\<close> and has at least four parts separated by \<^verbatim>\<open>:\<close>, whatever its
  host: the third part is the host, the fourth the project, the rest the path segments.
  The suffix check is the guard of \<^verbatim>\<open>processDID\<close> that follows the parse: when the
  host of such an identifier is ASCII and, in lower case, does not end with
  \<^verbatim>\<open>.github.io\<close>, \<^verbatim>\<open>processDID\<close> returns the error that the host is not a
  github.io host and leaves the trace as it was: no fetch, no file access, no log line,
  nothing sent to the batch processor.
\<close>

theorem processDID_rejects_host:
  assumes "HasPrefix did ''did:web:''" and "4 \<le> length (Split did CHR '':'')"
  shows "parseDID did
           = Inr \<lparr>Original = did, Host = Split did CHR '':'' ! 2,
                  Project = Split did CHR '':'' ! 3, PathSegs = drop 4 (Split did CHR '':''),
                  HostLower = ToLower (Split did CHR '':'' ! 2)\<rparr>
       \<and> (ascii (Split did CHR '':'' ! 2)
            \<and> \<not> HasSuffix (ToLower (Split did CHR '':'' ! 2)) ''.github.io''
          \<longrightarrow> processDID cfg lib env sc ch did tr
                = (Some (Some (NotGithubHost (Split did CHR '':'' ! 2))), tr))"
proof -
  have p: "parseDID did
           = Inr \<lparr>Original = did, Host = Split did CHR '':'' ! 2,
                  Project = Split did CHR '':'' ! 3, PathSegs = drop 4 (Split did CHR '':''),
                  HostLower = ToLower (Split did CHR '':'' ! 2)\<rparr>"
    using assms by (simp add: parseDID_def Let_def)
  show ?thesis
    unfolding p by (simp add: processDID_def p)
qed

theorem processDID_rejects_host_witness:
  "HasPrefix ''did:web:example.com:pages'' ''did:web:''
   \<and> 4 \<le> length (Split ''did:web:example.com:pages'' CHR '':'')
   \<and> Split ''did:web:example.com:pages'' CHR '':'' ! 2 = ''example.com''
   \<and> ascii ''example.com''
   \<and> \<not> HasSuffix (ToLower ''example.com'') ''.github.io''
   \<and> parseDID ''did:web:example.com:pages''
       = Inr \<lparr>Original = ''did:web:example.com:pages'', Host = ''example.com'',
              Project = ''pages'', PathSegs = [], HostLower = ''example.com''\<rparr>
   \<and> processDID demo_cfg demo_lib ok_env \<lparr>send_ready = Some 0, signal = None\<rparr> 0
        ''did:web:example.com:pages'' []
       = (Some (Some (NotGithubHost ''example.com'')), [])"
proof -
  have h1: "HasPrefix ''did:web:example.com:pages'' ''did:web:''"
    by (simp add: HasPrefix_def)
  have h2: "4 \<le> length (Split ''did:web:example.com:pages'' CHR '':'')" by simp
  have h: "Split ''did:web:example.com:pages'' CHR '':'' ! 2 = ''example.com''" by simp
  have a: "ascii ''example.com''" by (simp add: ascii_def)
  have s: "\<not> HasSuffix (ToLower ''example.com'') ''.github.io''"
    by (simp add: HasSuffix_def ToLower_def lower_char_def)
  note c = processDID_rejects_host [OF h1 h2, of demo_cfg demo_lib ok_env
      "\<lparr>send_ready = Some 0, signal = None\<rparr>" 0 "[]"]
  have p: "parseDID ''did:web:example.com:pages''
       = Inr \<lparr>Original = ''did:web:example.com:pages'', Host = ''example.com'',
              Project = ''pages'', PathSegs = [], HostLower = ''example.com''\<rparr>"
    by (simp add: parseDID_def HasPrefix_def ToLower_def lower_char_def Let_def)
  have pre: "ascii (Split ''did:web:example.com:pages'' CHR '':'' ! 2)
      \<and> \<not> HasSuffix (ToLower (Split ''did:web:example.com:pages'' CHR '':'' ! 2)) ''.github.io''"
    unfolding h using a s by (rule conjI)
  have "processDID demo_cfg demo_lib ok_env \<lparr>send_ready = Some 0, signal = None\<rparr> 0
        ''did:web:example.com:pages'' []
       = (Some (Some (NotGithubHost (Split ''did:web:example.com:pages'' CHR '':'' ! 2))), [])"
    using c [THEN conjunct2] pre by (rule mp)
  then have r: "processDID demo_cfg demo_lib ok_env \<lparr>send_ready = Some 0, signal = None\<rparr> 0
        ''did:web:example.com:pages'' []
       = (Some (Some (NotGithubHost ''example.com'')), [])"
    unfolding h .
  show ?thesis using h1 h2 h a s p r by - (intro conjI, assumption+)
qed

section \<open>The target file\<close>


















text \<open>
  Where two or more segments are concerned the loop departs from the specification's
  words: it compares the first segment with the last component, the second with the one
  before, and so on. In \<^verbatim>\<open>/srv/pages/a/b\<close> the segments \<^verbatim>\<open>a\<close>, \<^verbatim>\<open>b\<close>,
  \<^verbatim>\<open>c\<close> are all kept (the nesting is duplicated), and in \<^verbatim>\<open>/srv/b/a\<close> two of
  them are stripped where the specification strips one.
\<close>

lemma trimSegs_reverse_order:
  "determineTargetFile ''/srv/pages/a/b'' (demo_did ''pages'' [''a'', ''b'', ''c''])
     = ''a/b/c/did.json''
   \<and> spec_strip ''/srv/pages/a/b'' [''a'', ''b'', ''c''] = [''c'']
   \<and> determineTargetFile ''/srv/b/a'' (demo_did ''pages'' [''a'', ''b'', ''c'']) = ''c/did.json''
   \<and> spec_strip ''/srv/b/a'' [''a'', ''b'', ''c''] = [''b'', ''c'']"
  by (simp add: determineTargetFile_def filepath_Join_def Clean_def Base_def Dir_def
      spec_strip_def cwd_components_def demo_did_def Let_def)

section \<open>Saving a document\<close>

text \<open>
  C9. When \<^verbatim>\<open>os.MkdirAll\<close> on the parent directory succeeds,
  \<^verbatim>\<open>saveDIDDocument\<close> creates the parent directory and then writes the file with one
  \<^verbatim>\<open>os.WriteFile\<close>. When the payload parses, the bytes written are its
  \<^verbatim>\<open>MarshalIndent\<close> form, which parses to the value the payload parses to (the
  program writes the payload as it is, without a warning, should \<^verbatim>\<open>MarshalIndent\<close>
  fail). When it does not parse, a warning is logged and the payload is written
  unchanged. The JSON library is a parameter; that parsing a re-serialized value gives
  the value back is a property of the library, and a hypothesis here.
\<close>

theorem saveDIDDocument_writes:
  assumes mk: "env tr (MkdirAll (Dir path)) \<noteq> Failed"
    and law: "\<forall>d j f. Unmarshal lib d = Some j \<longrightarrow> MarshalIndent lib j = Some f
                \<longrightarrow> Unmarshal lib f = Some j"
  shows "\<exists>written.
     map fst (drop (length tr) (snd (saveDIDDocument lib env data path tr)))
       = MkdirAll (Dir path)
         # (if Unmarshal lib data = None then [Log ''Warning: invalid JSON, saving raw''] else [])
         @ [WriteFile path written]
     \<and> take (length tr) (snd (saveDIDDocument lib env data path tr)) = tr
     \<and> (Unmarshal lib data = None \<longrightarrow> written = data)
     \<and> (\<forall>j. Unmarshal lib data = Some j \<longrightarrow>
           (case MarshalIndent lib j of
              Some f \<Rightarrow> written = f \<and> Unmarshal lib written = Unmarshal lib data
            | None \<Rightarrow> written = data))"
proof (cases "Unmarshal lib data")
  case None
  show ?thesis
    using mk None
    by (intro exI [of _ data])
       (auto simp: saveDIDDocument_def perform_def emit_def Let_def split: resp.splits)
next
  case (Some j)
  note j = Some
  show ?thesis
  proof (cases "MarshalIndent lib j")
    case None
    show ?thesis
      using mk j None
      by (intro exI [of _ data])
         (auto simp: saveDIDDocument_def perform_def emit_def Let_def split: resp.splits)
  next
    case (Some f)
    have rt: "Unmarshal lib f = Some j" using law j Some by blast
    show ?thesis
      using mk j Some rt
      by (intro exI [of _ f])
         (auto simp: saveDIDDocument_def perform_def emit_def Let_def split: resp.splits)
  qed
qed

theorem saveDIDDocument_writes_witness:
  "ok_env [] (MkdirAll (Dir ''a/did.json'')) \<noteq> Failed
   \<and> Unmarshal demo_lib ''{ }'' = Some ()
   \<and> MarshalIndent demo_lib () = Some ''{}''
   \<and> saveDIDDocument demo_lib ok_env ''{ }'' ''a/did.json'' []
       = (None, [(MkdirAll ''a'', Succeeded []), (WriteFile ''a/did.json'' ''{}'', Succeeded [])])
   \<and> (\<exists>written.
     map fst (drop (length ([]::trace))
                (snd (saveDIDDocument demo_lib ok_env ''{ }'' ''a/did.json'' [])))
       = MkdirAll (Dir ''a/did.json'')
         # (if Unmarshal demo_lib ''{ }'' = None
            then [Log ''Warning: invalid JSON, saving raw''] else [])
         @ [WriteFile ''a/did.json'' written]
     \<and> take (length ([]::trace))
          (snd (saveDIDDocument demo_lib ok_env ''{ }'' ''a/did.json'' [])) = []
     \<and> (Unmarshal demo_lib ''{ }'' = None \<longrightarrow> written = ''{ }'')
     \<and> (\<forall>j. Unmarshal demo_lib ''{ }'' = Some j \<longrightarrow>
           (case MarshalIndent demo_lib j of
              Some f \<Rightarrow> written = f \<and> Unmarshal demo_lib written = Unmarshal demo_lib ''{ }''
            | None \<Rightarrow> written = ''{ }'')))"
proof -
  have mk: "ok_env [] (MkdirAll (Dir ''a/did.json'')) \<noteq> Failed" by (simp add: ok_env_def)
  have law: "\<forall>d j f. Unmarshal demo_lib d = Some j \<longrightarrow> MarshalIndent demo_lib j = Some f
                \<longrightarrow> Unmarshal demo_lib f = Some j"
    by (simp add: demo_lib_def)
  have u: "Unmarshal demo_lib ''{ }'' = Some ()" by (simp add: demo_lib_def)
  have m: "MarshalIndent demo_lib () = Some ''{}''" by (simp add: demo_lib_def)
  have ev: "saveDIDDocument demo_lib ok_env ''{ }'' ''a/did.json'' []
       = (None, [(MkdirAll ''a'', Succeeded []), (WriteFile ''a/did.json'' ''{}'', Succeeded [])])"
    by (simp add: saveDIDDocument_def demo_lib_def ok_env_def perform_def Dir_def Clean_def Let_def)
  note c = saveDIDDocument_writes [of ok_env "[]" "''a/did.json''" demo_lib "''{ }''", OF mk law]
  show ?thesis using mk u m ev c by - (intro conjI, assumption+)
qed

section \<open>The accumulation loop\<close>

lemma processBatch_empty: "batch st = [] \<Longrightarrow> processBatch cfg env now st = st"
  by (simp add: processBatch_def)

lemma processBatch_flush:
  assumes "batch st \<noteq> []"
  shows "batch (processBatch cfg env now st) = []"
    and "flushed (processBatch cfg env now st) = flushed st @ [batch st]"
    and "exited (processBatch cfg env now st) = exited st"
    and "chans (processBatch cfg env now st)
           = send_results now
               (fst (performBatchedGitOperations cfg env (batch st)
                  (emit (Log (''Processing git batch with '' @ show_nat (length (batch st))
                              @ '' items'')) (io_trace st))))
               (batch st) (chans st)"
  using assms by (simp_all add: processBatch_def Let_def split: prod.splits)

lemma step_Recv_below:
  assumes "\<not> exited st" "int (Suc (length (batch st))) < BatchSize cfg"
  shows "step cfg env st (t, Recv item) = st\<lparr>batch := batch st @ [item]\<rparr>"
  using assms by (simp add: step_def Let_def)

lemma step_Recv_full:
  assumes "\<not> exited st" "BatchSize cfg \<le> int (Suc (length (batch st)))"
  shows "step cfg env st (t, Recv item)
           = processBatch cfg env t (st\<lparr>batch := batch st @ [item]\<rparr>)"
  using assms by (simp add: step_def Let_def)

lemma step_Tick:
  "\<not> exited st \<Longrightarrow>
     step cfg env st (t, Tick) = processBatch cfg env t (st\<lparr>ticker_due := t + BatchTimeout cfg\<rparr>)"
  by (simp add: step_def)

lemma gitBatchProcessor_append:
  "gitBatchProcessor cfg env st (xs @ ys)
     = gitBatchProcessor cfg env (gitBatchProcessor cfg env st xs) ys"
  by (simp add: gitBatchProcessor_def)

lemma gitBatchProcessor_Cons:
  "gitBatchProcessor cfg env st (x # xs) = gitBatchProcessor cfg env (step cfg env st x) xs"
  by (simp add: gitBatchProcessor_def)

lemma gitBatchProcessor_Nil: "gitBatchProcessor cfg env st [] = st"
  by (simp add: gitBatchProcessor_def)

text \<open>
  Receiving items with no tick in between: the loop flushes each time the buffer holds
  \<open>B\<close> items, and keeps the rest.
\<close>

lemma receive_run:
  assumes B: "BatchSize cfg = int B" "1 \<le> B"
  shows "\<not> exited st \<Longrightarrow> length (batch st) < B \<Longrightarrow>
     (let st' = gitBatchProcessor cfg env st (map (\<lambda>(t, item). (t, Recv item)) arrivals) in
        \<not> exited st'
      \<and> length (batch st') = (length (batch st) + length arrivals) mod B
      \<and> length (flushed st') = length (flushed st) + (length (batch st) + length arrivals) div B
      \<and> concat (flushed st') @ batch st' = concat (flushed st) @ batch st @ map snd arrivals
      \<and> (\<forall>b\<in>set (flushed st'). b \<in> set (flushed st) \<or> length b = B))"
proof (induction arrivals arbitrary: st)
  case Nil
  then show ?case by (simp add: gitBatchProcessor_Nil)
next
  case (Cons x arrivals)
  obtain t item where x: "x = (t, item)" by (cases x)
  let ?st1 = "st\<lparr>batch := batch st @ [item]\<rparr>"
  show ?case
  proof (cases "Suc (length (batch st)) < B")
    case True
    then have s: "step cfg env st (t, Recv item) = ?st1"
      using Cons.prems B by (intro step_Recv_below) auto
    have "\<not> exited ?st1" "length (batch ?st1) < B" using Cons.prems True by auto
    from Cons.IH [OF this] show ?thesis
      using s x by (simp add: gitBatchProcessor_Cons Let_def)
  next
    case False
    then have full: "Suc (length (batch st)) = B" using Cons.prems by simp
    then have s: "step cfg env st (t, Recv item) = processBatch cfg env t ?st1"
      using Cons.prems B by (intro step_Recv_full) auto
    let ?st2 = "processBatch cfg env t ?st1"
    have ne: "batch ?st1 \<noteq> []" by simp
    have b2: "batch ?st2 = []" and f2: "flushed ?st2 = flushed st @ [batch st @ [item]]"
      and e2: "exited ?st2 = exited st"
      using processBatch_flush [OF ne, of cfg env t] by simp_all
    have "\<not> exited ?st2" "length (batch ?st2) < B" using Cons.prems b2 e2 B by auto
    from Cons.IH [OF this]
    have ih: "\<not> exited (gitBatchProcessor cfg env ?st2 (map (\<lambda>(t, item). (t, Recv item)) arrivals))"
      "length (batch (gitBatchProcessor cfg env ?st2 (map (\<lambda>(t, item). (t, Recv item)) arrivals)))
         = length arrivals mod B"
      "length (flushed (gitBatchProcessor cfg env ?st2 (map (\<lambda>(t, item). (t, Recv item)) arrivals)))
         = Suc (length (flushed st)) + length arrivals div B"
      "concat (flushed (gitBatchProcessor cfg env ?st2 (map (\<lambda>(t, item). (t, Recv item)) arrivals)))
         @ batch (gitBatchProcessor cfg env ?st2 (map (\<lambda>(t, item). (t, Recv item)) arrivals))
         = concat (flushed st) @ batch st @ item # map snd arrivals"
      "\<forall>b\<in>set (flushed (gitBatchProcessor cfg env ?st2
                 (map (\<lambda>(t, item). (t, Recv item)) arrivals))).
           b \<in> set (flushed ?st2) \<or> length b = B"
      using b2 f2 by (simp_all add: Let_def)
    have eq: "length (batch st) + length (x # arrivals) = length arrivals + 1 * B"
      using full by simp
    have B0: "B \<noteq> 0" using B by simp
    have a1: "(length (batch st) + length (x # arrivals)) mod B = length arrivals mod B"
      unfolding eq by (rule mod_mult_self1)
    have a2: "(length (batch st) + length (x # arrivals)) div B = 1 + length arrivals div B"
      unfolding eq by (rule div_mult_self1 [OF B0])
    have l: "length (batch st @ [item]) = B" using full by simp
    have fl: "\<forall>b\<in>set (flushed (gitBatchProcessor cfg env ?st2
                 (map (\<lambda>(t, item). (t, Recv item)) arrivals))).
           b \<in> set (flushed st) \<or> length b = B"
      using ih(5) l unfolding f2 by auto
    have run: "gitBatchProcessor cfg env st (map (\<lambda>(t, item). (t, Recv item)) (x # arrivals))
                = gitBatchProcessor cfg env ?st2 (map (\<lambda>(t, item). (t, Recv item)) arrivals)"
      using s x by (simp add: gitBatchProcessor_Cons)
    show ?thesis
      unfolding Let_def run a1 a2 using ih(1-4) fl x by simp
  qed
qed

lemma ceil_div:
  assumes "1 \<le> (B::nat)"
  shows "(n + B - 1) div B = n div B + (if n mod B = 0 then 0 else 1)"
proof -
  define q where "q = n div B"
  define r where "r = n mod B"
  have B0: "B \<noteq> 0" using assms by simp
  have n: "n = r + q * B" by (simp add: q_def r_def)
  have rB: "r < B" using B0 by (simp add: r_def)
  show ?thesis
  proof (cases "r = 0")
    case True
    have "n + B - 1 = (B - 1) + q * B" using n True assms by simp
    then have "(n + B - 1) div B = q + (B - 1) div B"
      using div_mult_self1 [OF B0, of "B - 1" q] by simp
    moreover have "(B - 1) div B = 0" using B0 by simp
    ultimately show ?thesis using True by (simp add: q_def r_def)
  next
    case False
    have "n + B - 1 = (r - 1) + (q + 1) * B" using n False by simp
    then have "(n + B - 1) div B = (q + 1) + (r - 1) div B"
      using div_mult_self1 [OF B0, of "r - 1" "q + 1"] by simp
    moreover have "(r - 1) div B = 0" using rB by simp
    ultimately show ?thesis using False by (simp add: q_def r_def)
  qed
qed

subsection \<open>What a run hands to the publisher and sends to the callers\<close>

lemma send_results_chan:
  "send_results now err items ch h
     = (if h \<in> ResponseCh ` set items \<and> ch h = [] then [(now, err)] else ch h)"
  by (induction items arbitrary: ch) auto

lemma processBatch_trace:
  assumes "batch st \<noteq> []"
  shows "io_trace (processBatch cfg env now st)
           = snd (performBatchedGitOperations cfg env (batch st)
                  (emit (Log (''Processing git batch with '' @ show_nat (length (batch st))
                              @ '' items'')) (io_trace st)))"
  using assms by (simp add: processBatch_def Let_def split: prod.splits)

lemma publish_all_snoc:
  "publish_all cfg env (bs @ [b]) tr = publish_step cfg env (publish_all cfg env bs tr) b"
  by (simp add: publish_all_def)

lemma publish_step_fst:
  "fst (publish_step cfg env acc b)
     = fst acc @ [fst (performBatchedGitOperations cfg env b
                     (emit (Log (''Processing git batch with '' @ show_nat (length b)
                                 @ '' items'')) (snd acc)))]"
  by (simp add: publish_step_def Let_def split: prod.splits)

lemma publish_step_snd:
  "snd (publish_step cfg env acc b)
     = snd (performBatchedGitOperations cfg env b
              (emit (Log (''Processing git batch with '' @ show_nat (length b)
                          @ '' items'')) (snd acc)))"
  by (simp add: publish_step_def Let_def split: prod.splits)

lemma length_publish_all: "length (fst (publish_all cfg env bs tr)) = length bs"
  by (induction bs rule: rev_induct) (simp_all add: publish_all_def publish_step_fst)

lemma processBatch_replayed:
  assumes "trace_replayed cfg env st"
  shows "trace_replayed cfg env (processBatch cfg env now st)"
proof (cases "batch st = []")
  case True
  then show ?thesis using assms by (simp add: processBatch_empty)
next
  case False
  show ?thesis
    using assms
    unfolding trace_replayed_def processBatch_trace [OF False] processBatch_flush(2) [OF False]
      publish_all_snoc publish_step_snd
    by simp
qed

lemma processBatch_signalled:
  assumes tr: "trace_replayed cfg env st"
    and hs: "handles_signalled cfg env st"
    and ne: "batch st \<noteq> []"
    and dj: "ResponseCh ` set (batch st) \<inter> ResponseCh ` set (concat (flushed st)) = {}"
  shows "handles_signalled cfg env (processBatch cfg env now st)"
proof -
  let ?st' = "processBatch cfg env now st"
  let ?outs = "fst (publish_all cfg env (flushed st) [])"
  let ?err = "fst (performBatchedGitOperations cfg env (batch st)
                (emit (Log (''Processing git batch with '' @ show_nat (length (batch st))
                            @ '' items'')) (io_trace st)))"
  have fl: "flushed ?st' = flushed st @ [batch st]" by (rule processBatch_flush(2) [OF ne])
  have ch: "chans ?st' = send_results now ?err (batch st) (chans st)"
    by (rule processBatch_flush(4) [OF ne])
  have outs: "fst (publish_all cfg env (flushed ?st') []) = ?outs @ [?err]"
    using tr unfolding fl publish_all_snoc publish_step_fst trace_replayed_def by simp
  have len: "length ?outs = length (flushed st)" by (rule length_publish_all)
  have old: "map snd (chans ?st' (ResponseCh item)) = [?outs ! i]"
    if "i < length (flushed st)" "item \<in> set (flushed st ! i)" for i item
  proof -
    have "flushed st ! i \<in> set (flushed st)" using that(1) by (rule nth_mem)
    then have "item \<in> set (concat (flushed st))" using that(2) by auto
    then have "ResponseCh item \<in> ResponseCh ` set (concat (flushed st))" by (rule imageI)
    then have "ResponseCh item \<notin> ResponseCh ` set (batch st)" using dj by blast
    then have "chans ?st' (ResponseCh item) = chans st (ResponseCh item)"
      unfolding ch send_results_chan by simp
    then show ?thesis using hs that unfolding handles_signalled_def by simp
  qed
  have new: "map snd (chans ?st' (ResponseCh item)) = [?err]"
    if "item \<in> set (batch st)" for item
  proof -
    have "ResponseCh item \<in> ResponseCh ` set (batch st)" using that by simp
    moreover from this have "ResponseCh item \<notin> ResponseCh ` set (concat (flushed st))"
      using dj by blast
    then have "chans st (ResponseCh item) = []"
      using hs unfolding handles_signalled_def by blast
    ultimately show ?thesis unfolding ch send_results_chan by simp
  qed
  have a: "\<forall>i<length (flushed ?st'). \<forall>item\<in>set (flushed ?st' ! i).
          map snd (chans ?st' (ResponseCh item)) = [fst (publish_all cfg env (flushed ?st') []) ! i]"
  proof (intro allI impI ballI)
    fix i item
    assume i: "i < length (flushed ?st')" and it: "item \<in> set (flushed ?st' ! i)"
    show "map snd (chans ?st' (ResponseCh item)) = [fst (publish_all cfg env (flushed ?st') []) ! i]"
    proof (cases "i < length (flushed st)")
      case True
      then have "item \<in> set (flushed st ! i)" using it unfolding fl by (simp add: nth_append)
      from old [OF True this] show ?thesis
        unfolding outs using True len by (simp add: nth_append)
    next
      case False
      then have i': "i = length (flushed st)" using i unfolding fl by simp
      then have "item \<in> set (batch st)" using it unfolding fl by simp
      from new [OF this] show ?thesis
        unfolding outs i' using len by (simp add: nth_append)
    qed
  qed
  have b: "\<forall>h. h \<notin> ResponseCh ` set (concat (flushed ?st')) \<longrightarrow> chans ?st' h = []"
  proof (intro allI impI)
    fix h
    assume "h \<notin> ResponseCh ` set (concat (flushed ?st'))"
    then have "h \<notin> ResponseCh ` set (batch st)"
      and "h \<notin> ResponseCh ` set (concat (flushed st))"
      unfolding fl by auto
    then show "chans ?st' h = []"
      using hs unfolding ch send_results_chan handles_signalled_def by simp
  qed
  show ?thesis unfolding handles_signalled_def using a b by blast
qed

lemma step_carry:
  assumes "\<not> exited st"
  shows "concat (flushed (step cfg env st te)) @ batch (step cfg env st te)
           = concat (flushed st) @ batch st @ recv_items [te]"
proof -
  obtain t ev where te: "te = (t, ev)" by (cases te)
  have pb: "concat (flushed (processBatch cfg env now s)) @ batch (processBatch cfg env now s)
              = concat (flushed s) @ batch s" for now s
  proof (cases "batch s = []")
    case True
    then show ?thesis by (simp add: processBatch_empty)
  next
    case False
    then show ?thesis by (simp add: processBatch_flush(1,2) [OF False])
  qed
  show ?thesis
  proof (cases ev)
    case (Recv item)
    then show ?thesis using assms te pb by (simp add: step_def Let_def)
  next
    case Tick
    then show ?thesis using assms te pb by (simp add: step_def)
  next
    case Closed
    then show ?thesis
      using assms te pb [of t st]
      by (cases "batch st = []")
         (simp_all add: step_def processBatch_empty processBatch_flush(1,2))
  qed
qed

lemma step_replayed:
  assumes "trace_replayed cfg env st"
  shows "trace_replayed cfg env (step cfg env st te)"
proof -
  have r: "trace_replayed cfg env (processBatch cfg env now s)"
    if "io_trace s = io_trace st" "flushed s = flushed st" for now s
    using processBatch_replayed [of cfg env s now] assms that
    by (simp add: trace_replayed_def)
  have x: "trace_replayed cfg env (s\<lparr>exited := True\<rparr>)" if "trace_replayed cfg env s" for s
    using that by (simp add: trace_replayed_def)
  have u: "trace_replayed cfg env (st\<lparr>batch := b\<rparr>)" for b
    using assms by (simp add: trace_replayed_def)
  show ?thesis
    using assms r x u
    by (auto simp: step_def Let_def split: event.splits)
qed

lemma step_signalled:
  assumes tr: "trace_replayed cfg env st"
    and hs: "handles_signalled cfg env st"
    and di: "distinct (map ResponseCh (concat (flushed st) @ batch st @ recv_items [te]))"
  shows "handles_signalled cfg env (step cfg env st te)"
proof (cases "exited st")
  case True
  then show ?thesis using hs by (simp add: step_def)
next
  case False
  obtain t ev where te: "te = (t, ev)" by (cases te)
  have pb: "handles_signalled cfg env (processBatch cfg env now s)"
    if "io_trace s = io_trace st" "flushed s = flushed st" "chans s = chans st"
      "distinct (map ResponseCh (concat (flushed st) @ batch s))" for now s
  proof (cases "batch s = []")
    case True
    then show ?thesis
      using hs that by (simp add: processBatch_empty handles_signalled_def)
  next
    case ne: False
    have "trace_replayed cfg env s" using tr that by (simp add: trace_replayed_def)
    moreover have "handles_signalled cfg env s"
      using hs that by (simp add: handles_signalled_def)
    moreover have "ResponseCh ` set (batch s) \<inter> ResponseCh ` set (concat (flushed s)) = {}"
      using that(2,4) by auto
    ultimately show ?thesis using ne by (intro processBatch_signalled)
  qed
  have x: "handles_signalled cfg env (s\<lparr>exited := True\<rparr>)"
    if "handles_signalled cfg env s" for s
    using that by (simp add: handles_signalled_def)
  show ?thesis
  proof (cases ev)
    case (Recv item)
    have "handles_signalled cfg env (st\<lparr>batch := batch st @ [item]\<rparr>)"
      using hs by (simp add: handles_signalled_def)
    moreover have "handles_signalled cfg env
        (processBatch cfg env t (st\<lparr>batch := batch st @ [item]\<rparr>))"
      using di te Recv by (intro pb) simp_all
    ultimately show ?thesis using False te Recv by (simp add: step_def Let_def)
  next
    case Tick
    have "handles_signalled cfg env
        (processBatch cfg env t (st\<lparr>ticker_due := t + BatchTimeout cfg\<rparr>))"
      using di te Tick by (intro pb) simp_all
    then show ?thesis using False te Tick by (simp add: step_def)
  next
    case Closed
    have "handles_signalled cfg env (processBatch cfg env t st)"
      using di te Closed by (intro pb) simp_all
    from x [OF this] show ?thesis using False te Closed by (simp add: step_def)
  qed
qed

lemma distinct_drop_middle: "distinct (xs @ ys @ zs) \<Longrightarrow> distinct (xs @ zs)"
  by auto

lemma recv_items_Cons: "recv_items (te # evs) = recv_items [te] @ recv_items evs"
  by (cases te; cases "snd te") auto

lemma run_signalled:
  "trace_replayed cfg env st \<Longrightarrow> handles_signalled cfg env st \<Longrightarrow>
   distinct (map ResponseCh (concat (flushed st) @ batch st @ recv_items evs)) \<Longrightarrow>
     trace_replayed cfg env (gitBatchProcessor cfg env st evs)
     \<and> handles_signalled cfg env (gitBatchProcessor cfg env st evs)"
proof (induction evs arbitrary: st)
  case Nil
  then show ?case by (simp add: gitBatchProcessor_Nil)
next
  case (Cons te evs)
  let ?st' = "step cfg env st te"
  have d: "distinct (map ResponseCh
             (concat (flushed st) @ batch st @ recv_items [te] @ recv_items evs))"
    using Cons.prems(3) recv_items_Cons [of te evs] by simp
  have tr: "trace_replayed cfg env ?st'" by (rule step_replayed [OF Cons.prems(1)])
  have "distinct (map ResponseCh (concat (flushed st) @ batch st @ recv_items [te])
                  @ map ResponseCh (recv_items evs))"
    using d by simp
  then have d1: "distinct (map ResponseCh (concat (flushed st) @ batch st @ recv_items [te]))"
    using distinct_append by blast
  have hs: "handles_signalled cfg env ?st'"
    by (rule step_signalled [OF Cons.prems(1,2) d1])
  have d': "distinct (map ResponseCh (concat (flushed ?st') @ batch ?st' @ recv_items evs))"
  proof (cases "exited st")
    case True
    then have st': "?st' = st" by (simp add: step_def)
    have "distinct ((map ResponseCh (concat (flushed st)) @ map ResponseCh (batch st))
                    @ map ResponseCh (recv_items [te]) @ map ResponseCh (recv_items evs))"
      using d by simp
    then have "distinct ((map ResponseCh (concat (flushed st)) @ map ResponseCh (batch st))
                    @ map ResponseCh (recv_items evs))"
      by (rule distinct_drop_middle)
    then show ?thesis unfolding st' by simp
  next
    case False
    have eq: "concat (flushed ?st') @ batch ?st' @ recv_items evs
            = concat (flushed st) @ batch st @ recv_items [te] @ recv_items evs"
      using step_carry [OF False, of cfg env te] by (metis append.assoc)
    show ?thesis unfolding eq by (rule d)
  qed
  from Cons.IH [OF tr hs d'] show ?case by (simp add: gitBatchProcessor_Cons)
qed

lemma recv_items_arrivals:
  "recv_items (map (\<lambda>(t, item). (t, Recv item)) arrivals @ [(t1, Tick)]) = map snd arrivals"
  by (induction arrivals) auto

lemma run_replayed:
  "trace_replayed cfg env st \<Longrightarrow> trace_replayed cfg env (gitBatchProcessor cfg env st evs)"
proof (induction evs arbitrary: st)
  case Nil
  then show ?case by (simp add: gitBatchProcessor_Nil)
next
  case (Cons te evs)
  from Cons.IH [OF step_replayed [OF Cons.prems]] show ?case
    by (simp add: gitBatchProcessor_Cons)
qed

text \<open>
  C6. With a size ceiling \<open>B\<close> of at least 1, \<open>N\<close> items received before any tick,
  followed by the tick of the timer, give \<open>ceil (N / B)\<close> flushes; the flushes, one after
  the other, hold the items in the order of their admission, every flush is non-empty and
  has at most \<open>B\<close> items, and nothing is left in the buffer. Every flush took place: the
  trace of the run is the trace of handing these batches, in this order, to
  \<^verbatim>\<open>performBatchedGitOperations\<close>, which gives one outcome for each; and when the
  response channels of the items are distinct (every caller makes its own), the channel of
  every item holds exactly one value, the outcome of the flush the item is in.
\<close>

theorem flushes_ceil:
  assumes "BatchSize cfg = int B" "1 \<le> B"
  shows "(let st = gitBatchProcessor cfg env (init_state cfg t0)
                     (map (\<lambda>(t, item). (t, Recv item)) arrivals @ [(t1, Tick)]);
              outcomes = fst (publish_all cfg env (flushed st) [])
          in
      length (flushed st) = (length arrivals + B - 1) div B
    \<and> concat (flushed st) = map snd arrivals
    \<and> (\<forall>b\<in>set (flushed st). b \<noteq> [] \<and> length b \<le> B)
    \<and> batch st = []
    \<and> io_trace st = snd (publish_all cfg env (flushed st) [])
    \<and> length outcomes = length (flushed st)
    \<and> (distinct (map ResponseCh (map snd arrivals)) \<longrightarrow>
          (\<forall>i<length (flushed st). \<forall>item\<in>set (flushed st ! i).
              map snd (chans st (ResponseCh item)) = [outcomes ! i])))"
proof -
  let ?evs = "map (\<lambda>(t, item). (t, Recv item)) arrivals @ [(t1, Tick)]"
  let ?s0 = "init_state cfg t0"
  let ?s1 = "gitBatchProcessor cfg env ?s0 (map (\<lambda>(t, item). (t, Recv item)) arrivals)"
  let ?s1' = "?s1\<lparr>ticker_due := t1 + BatchTimeout cfg\<rparr>"
  let ?s2 = "gitBatchProcessor cfg env ?s1 [(t1, Tick)]"
  let ?st = "gitBatchProcessor cfg env ?s0 ?evs"
  have i: "\<not> exited ?s0" "length (batch ?s0) < B" "flushed ?s0 = []" "batch ?s0 = []"
    using assms by (simp_all add: init_state_def)
  from receive_run [OF assms i(1,2), of env arrivals]
  have r: "\<not> exited ?s1" "length (batch ?s1) = length arrivals mod B"
    "length (flushed ?s1) = length arrivals div B"
    "concat (flushed ?s1) @ batch ?s1 = map snd arrivals"
    "\<forall>b\<in>set (flushed ?s1). length b = B"
    using i by (simp_all add: Let_def)
  have s2: "?s2 = processBatch cfg env t1 ?s1'"
    using r(1) by (simp add: gitBatchProcessor_Cons gitBatchProcessor_Nil step_Tick)
  have c: "length (flushed ?s2) = (length arrivals + B - 1) div B
    \<and> concat (flushed ?s2) = map snd arrivals
    \<and> (\<forall>b\<in>set (flushed ?s2). b \<noteq> [] \<and> length b \<le> B)
    \<and> batch ?s2 = []"
  proof (cases "batch ?s1 = []")
    case True
    then have "?s2 = ?s1'" using s2 by (simp add: processBatch_empty)
    moreover have "length arrivals mod B = 0" using r(2) True by simp
    ultimately show ?thesis
      using r True ceil_div [OF assms(2), of "length arrivals"] by auto
  next
    case False
    then have ne: "batch ?s1' \<noteq> []" by simp
    have "length (batch ?s1) \<noteq> 0" using False by simp
    then have "length arrivals mod B \<noteq> 0" using r(2) by simp
    moreover have "length (batch ?s1) \<le> B" using r(2) assms(2)
      by (metis Suc_le_eq less_imp_le_nat mod_less_divisor One_nat_def)
    ultimately show ?thesis
      using processBatch_flush [OF ne, of cfg env t1] s2 r False
        ceil_div [OF assms(2), of "length arrivals"]
      by auto
  qed
  have run: "?st = ?s2" by (rule gitBatchProcessor_append)
  have t0: "trace_replayed cfg env ?s0"
    by (simp add: trace_replayed_def init_state_def publish_all_def)
  have h0: "handles_signalled cfg env ?s0"
    by (simp add: handles_signalled_def init_state_def)
  have tr: "io_trace ?st = snd (publish_all cfg env (flushed ?st) [])"
    using run_replayed [OF t0, of ?evs] by (simp add: trace_replayed_def)
  have len: "length (fst (publish_all cfg env (flushed ?st) [])) = length (flushed ?st)"
    by (rule length_publish_all)
  have hs: "\<forall>i<length (flushed ?st). \<forall>item\<in>set (flushed ?st ! i).
              map snd (chans ?st (ResponseCh item)) = [fst (publish_all cfg env (flushed ?st) []) ! i]"
    if d: "distinct (map ResponseCh (map snd arrivals))"
  proof -
    have "distinct (map ResponseCh (concat (flushed ?s0) @ batch ?s0 @ recv_items ?evs))"
      using d i(3,4) by (simp only: recv_items_arrivals) simp
    from run_signalled [OF t0 h0 this] show ?thesis
      by (simp add: handles_signalled_def)
  qed
  have c': "length (flushed ?st) = (length arrivals + B - 1) div B
    \<and> concat (flushed ?st) = map snd arrivals
    \<and> (\<forall>b\<in>set (flushed ?st). b \<noteq> [] \<and> length b \<le> B)
    \<and> batch ?st = []"
    unfolding run by (rule c)
  show ?thesis
    unfolding Let_def using c' tr len hs by blast
qed

theorem flushes_ceil_witness:
  "BatchSize demo_cfg = int 3 \<and> 1 \<le> (3::nat)
   \<and> distinct (map ResponseCh (map snd
        [(1::nat, demo_item ''pages'' ''a'' 1), (1, demo_item ''pages'' ''b'' 2),
         (2, demo_item ''pages'' ''c'' 3), (2, demo_item ''pages'' ''d'' 4)]))
   \<and> ticker_due (gitBatchProcessor demo_cfg (git_env ''git@github.com:alice/pages.git'' False)
        (init_state demo_cfg 0)
        (map (\<lambda>(t, item). (t, Recv item))
           [(1, demo_item ''pages'' ''a'' 1), (1, demo_item ''pages'' ''b'' 2),
            (2, demo_item ''pages'' ''c'' 3), (2, demo_item ''pages'' ''d'' 4)])) = 7
   \<and> flushed (gitBatchProcessor demo_cfg (git_env ''git@github.com:alice/pages.git'' False)
        (init_state demo_cfg 0)
        (map (\<lambda>(t, item). (t, Recv item))
           [(1, demo_item ''pages'' ''a'' 1), (1, demo_item ''pages'' ''b'' 2),
            (2, demo_item ''pages'' ''c'' 3), (2, demo_item ''pages'' ''d'' 4)] @ [(7, Tick)]))
       = [[demo_item ''pages'' ''a'' 1, demo_item ''pages'' ''b'' 2, demo_item ''pages'' ''c'' 3],
          [demo_item ''pages'' ''d'' 4]]
   \<and> chans (gitBatchProcessor demo_cfg (git_env ''git@github.com:alice/pages.git'' False)
        (init_state demo_cfg 0)
        (map (\<lambda>(t, item). (t, Recv item))
           [(1, demo_item ''pages'' ''a'' 1), (1, demo_item ''pages'' ''b'' 2),
            (2, demo_item ''pages'' ''c'' 3), (2, demo_item ''pages'' ''d'' 4)] @ [(7, Tick)])) 4
       = [(7, None)]
   \<and> filter (\<lambda>a. git_subcommand a = ''add'')
        (map fst (io_trace (gitBatchProcessor demo_cfg
           (git_env ''git@github.com:alice/pages.git'' False) (init_state demo_cfg 0)
           (map (\<lambda>(t, item). (t, Recv item))
              [(1, demo_item ''pages'' ''a'' 1), (1, demo_item ''pages'' ''b'' 2),
               (2, demo_item ''pages'' ''c'' 3), (2, demo_item ''pages'' ''d'' 4)]
            @ [(7, Tick)]))))
       = [Exec [''git'', ''add'', ''a/did.json'', ''b/did.json'', ''c/did.json''],
          Exec [''git'', ''add'', ''d/did.json'']]
   \<and> (let st = gitBatchProcessor demo_cfg (git_env ''git@github.com:alice/pages.git'' False)
                  (init_state demo_cfg 0)
                  (map (\<lambda>(t, item). (t, Recv item))
                     [(1, demo_item ''pages'' ''a'' 1), (1, demo_item ''pages'' ''b'' 2),
                      (2, demo_item ''pages'' ''c'' 3), (2, demo_item ''pages'' ''d'' 4)]
                   @ [(7, Tick)]);
            outcomes = fst (publish_all demo_cfg
                             (git_env ''git@github.com:alice/pages.git'' False) (flushed st) [])
        in
        length (flushed st)
          = (length [(1::nat, demo_item ''pages'' ''a'' 1), (1, demo_item ''pages'' ''b'' 2),
                     (2, demo_item ''pages'' ''c'' 3), (2, demo_item ''pages'' ''d'' 4)]
             + 3 - 1) div 3
      \<and> concat (flushed st)
          = map snd [(1::nat, demo_item ''pages'' ''a'' 1), (1, demo_item ''pages'' ''b'' 2),
                     (2, demo_item ''pages'' ''c'' 3), (2, demo_item ''pages'' ''d'' 4)]
      \<and> (\<forall>b\<in>set (flushed st). b \<noteq> [] \<and> length b \<le> 3)
      \<and> batch st = []
      \<and> io_trace st = snd (publish_all demo_cfg
                             (git_env ''git@github.com:alice/pages.git'' False) (flushed st) [])
      \<and> length outcomes = length (flushed st)
      \<and> (distinct (map ResponseCh (map snd
              [(1::nat, demo_item ''pages'' ''a'' 1), (1, demo_item ''pages'' ''b'' 2),
               (2, demo_item ''pages'' ''c'' 3), (2, demo_item ''pages'' ''d'' 4)])) \<longrightarrow>
            (\<forall>i<length (flushed st). \<forall>item\<in>set (flushed st ! i).
                map snd (chans st (ResponseCh item)) = [outcomes ! i])))"
proof -
  have h1: "BatchSize demo_cfg = int 3" by (simp add: demo_cfg_def)
  have h2: "1 \<le> (3::nat)" by simp
  have h3: "distinct (map ResponseCh (map snd
        [(1::nat, demo_item ''pages'' ''a'' 1), (1, demo_item ''pages'' ''b'' 2),
         (2, demo_item ''pages'' ''c'' 3), (2, demo_item ''pages'' ''d'' 4)]))"
    by (simp add: demo_item_def)
  have due: "ticker_due (gitBatchProcessor demo_cfg
        (git_env ''git@github.com:alice/pages.git'' False) (init_state demo_cfg 0)
        (map (\<lambda>(t, item). (t, Recv item))
           [(1, demo_item ''pages'' ''a'' 1), (1, demo_item ''pages'' ''b'' 2),
            (2, demo_item ''pages'' ''c'' 3), (2, demo_item ''pages'' ''d'' 4)])) = 7"
    by (simp add: gitBatchProcessor_def step_def processBatch_def init_state_def demo_cfg_def
        Let_def case_prod_beta)
  have ev: "flushed (gitBatchProcessor demo_cfg
        (git_env ''git@github.com:alice/pages.git'' False) (init_state demo_cfg 0)
        (map (\<lambda>(t, item). (t, Recv item))
           [(1, demo_item ''pages'' ''a'' 1), (1, demo_item ''pages'' ''b'' 2),
            (2, demo_item ''pages'' ''c'' 3), (2, demo_item ''pages'' ''d'' 4)] @ [(7, Tick)]))
       = [[demo_item ''pages'' ''a'' 1, demo_item ''pages'' ''b'' 2, demo_item ''pages'' ''c'' 3],
          [demo_item ''pages'' ''d'' 4]]"
    by (simp add: gitBatchProcessor_def step_def processBatch_def init_state_def demo_cfg_def
        Let_def case_prod_beta)
  have ch: "chans (gitBatchProcessor demo_cfg
        (git_env ''git@github.com:alice/pages.git'' False) (init_state demo_cfg 0)
        (map (\<lambda>(t, item). (t, Recv item))
           [(1, demo_item ''pages'' ''a'' 1), (1, demo_item ''pages'' ''b'' 2),
            (2, demo_item ''pages'' ''c'' 3), (2, demo_item ''pages'' ''d'' 4)] @ [(7, Tick)])) 4
       = [(7, None)]"
    by (simp add: gitBatchProcessor_def step_def processBatch_def init_state_def eval_defs)
  have ad: "filter (\<lambda>a. git_subcommand a = ''add'')
        (map fst (io_trace (gitBatchProcessor demo_cfg
           (git_env ''git@github.com:alice/pages.git'' False) (init_state demo_cfg 0)
           (map (\<lambda>(t, item). (t, Recv item))
              [(1, demo_item ''pages'' ''a'' 1), (1, demo_item ''pages'' ''b'' 2),
               (2, demo_item ''pages'' ''c'' 3), (2, demo_item ''pages'' ''d'' 4)]
            @ [(7, Tick)]))))
       = [Exec [''git'', ''add'', ''a/did.json'', ''b/did.json'', ''c/did.json''],
          Exec [''git'', ''add'', ''d/did.json'']]"
    by (simp add: gitBatchProcessor_def step_def processBatch_def init_state_def
        git_subcommand_def eval_defs)
  note c = flushes_ceil [OF h1 h2, of "git_env ''git@github.com:alice/pages.git'' False" 0
      "[(1, demo_item ''pages'' ''a'' 1), (1, demo_item ''pages'' ''b'' 2),
        (2, demo_item ''pages'' ''c'' 3), (2, demo_item ''pages'' ''d'' 4)]" 7]
  show ?thesis using h1 h2 h3 due ev ch ad c by - (intro conjI, assumption+)
qed

section \<open>One flush for a full batch\<close>




section \<open>Nothing staged, nothing committed\<close>

lemma checkout_events:
  assumes "checkoutOrCreateBranch env b tr = (r, tr')"
  shows "\<exists>new. tr' = tr @ new
           \<and> (\<forall>x\<in>set new. git_subcommand (fst x) = ''rev-parse''
                              \<or> git_subcommand (fst x) = ''checkout'')"
  using assms
  by (auto simp: checkoutOrCreateBranch_def perform_def Let_def git_subcommand_def
           split: resp.splits if_splits)

lemma validate_item_events:
  assumes "validate_item cfg env seen item tr = (r, tr')"
  shows "\<exists>new. tr' = tr @ new
           \<and> (\<forall>x\<in>set new. git_subcommand (fst x) = ''remote'' \<or> git_subcommand (fst x) = [])"
  using assms
  by (auto simp: validate_item_def checkGitRemote_def getRemoteURL_def perform_def emit_def
                 Let_def git_subcommand_def
           split: resp.splits if_splits sum.splits prod.splits)

lemma validate_batch_events:
  "validate_batch cfg env seen done items tr = (r, tr') \<Longrightarrow>
     \<exists>new. tr' = tr @ new
       \<and> (\<forall>x\<in>set new. git_subcommand (fst x) = ''remote'' \<or> git_subcommand (fst x) = [])"
proof (induction items arbitrary: seen "done" tr)
  case Nil
  then show ?case by simp
next
  case (Cons item items)
  obtain r1 tr1 where v: "validate_item cfg env seen item tr = (r1, tr1)"
    by (cases "validate_item cfg env seen item tr")
  from validate_item_events [OF v] obtain n1 where n1: "tr1 = tr @ n1"
    "\<forall>x\<in>set n1. git_subcommand (fst x) = ''remote'' \<or> git_subcommand (fst x) = []"
    by blast
  show ?case
  proof (cases r1)
    case (Inl e)
    then have "tr' = tr1" using Cons.prems v by simp
    then show ?thesis using n1 by blast
  next
    case (Inr seen1)
    then have "validate_batch cfg env seen1 (done @ [item]) items tr1 = (r, tr')"
      using Cons.prems v by simp
    from Cons.IH [OF this] obtain n2 where n2: "tr' = tr1 @ n2"
      "\<forall>x\<in>set n2. git_subcommand (fst x) = ''remote'' \<or> git_subcommand (fst x) = []"
      by blast
    have "tr' = tr @ (n1 @ n2)" using n1 n2 by simp
    moreover have "\<forall>x\<in>set (n1 @ n2).
        git_subcommand (fst x) = ''remote'' \<or> git_subcommand (fst x) = []"
      using n1 n2 by auto
    ultimately show ?thesis by blast
  qed
qed

text \<open>
  \<^verbatim>\<open>executeBatchedGitCommands\<close>: when \<^verbatim>\<open>git diff --cached --quiet\<close> was run and
  succeeded, the result is nil and neither \<^verbatim>\<open>git commit\<close> nor \<^verbatim>\<open>git push\<close> was
  run; when it was not run, an error is returned.
\<close>

lemma execute_events:
  assumes "executeBatchedGitCommands cfg env items tr = (r, tr')"
  shows "\<exists>new. tr' = tr @ new
     \<and> ((\<exists>out. (Exec [''git'', ''diff'', ''--cached'', ''--quiet''], Succeeded out) \<in> set new)
          \<longrightarrow> r = None \<and> (\<forall>x\<in>set new. git_subcommand (fst x) \<noteq> ''commit''
                                        \<and> git_subcommand (fst x) \<noteq> ''push''))"
proof -
  obtain r0 tr0 where c: "checkoutOrCreateBranch env (Branch cfg) tr = (r0, tr0)"
    by (cases "checkoutOrCreateBranch env (Branch cfg) tr")
  from checkout_events [OF c] obtain n0 where n0: "tr0 = tr @ n0"
    "\<forall>x\<in>set n0. git_subcommand (fst x) = ''rev-parse'' \<or> git_subcommand (fst x) = ''checkout''"
    by blast
  have nodiff: "(Exec [''git'', ''diff'', ''--cached'', ''--quiet''], Succeeded out) \<notin> set n0" for out
    using n0(2) by (auto simp: git_subcommand_def)
  have nocommit: "\<forall>x\<in>set n0. git_subcommand (fst x) \<noteq> ''commit''
      \<and> git_subcommand (fst x) \<noteq> ''push''"
    using n0(2) by auto
  show ?thesis
  proof (cases r0)
    case (Some e)
    then have "tr' = tr @ n0" using assms c n0 by (simp add: executeBatchedGitCommands_def)
    then show ?thesis using nodiff by blast
  next
    case None
    then obtain n1 where n1: "tr' = tr0 @ n1"
      "(\<exists>out. (Exec [''git'', ''diff'', ''--cached'', ''--quiet''], Succeeded out) \<in> set n1)
          \<longrightarrow> r = None \<and> (\<forall>x\<in>set n1. git_subcommand (fst x) \<noteq> ''commit''
                                        \<and> git_subcommand (fst x) \<noteq> ''push'')"
      using assms c
      by (auto simp: executeBatchedGitCommands_def perform_def emit_def Let_def
                     git_subcommand_def
               split: resp.splits)
    have "tr' = tr @ (n0 @ n1)" using n0 n1 by simp
    moreover have "(\<exists>out. (Exec [''git'', ''diff'', ''--cached'', ''--quiet''], Succeeded out)
                        \<in> set (n0 @ n1))
          \<longrightarrow> r = None \<and> (\<forall>x\<in>set (n0 @ n1). git_subcommand (fst x) \<noteq> ''commit''
                                        \<and> git_subcommand (fst x) \<noteq> ''push'')"
      using n1(2) nodiff nocommit by auto
    ultimately show ?thesis by blast
  qed
qed

lemma perform_events:
  assumes "performBatchedGitOperations cfg env items tr = (r, tr')"
  shows "\<exists>new. tr' = tr @ new
     \<and> ((\<exists>out. (Exec [''git'', ''diff'', ''--cached'', ''--quiet''], Succeeded out) \<in> set new)
          \<longrightarrow> r = None \<and> (\<forall>x\<in>set new. git_subcommand (fst x) \<noteq> ''commit''
                                        \<and> git_subcommand (fst x) \<noteq> ''push''))"
proof (cases "items = []")
  case True
  then have "tr' = tr @ []" using assms by (simp add: performBatchedGitOperations_def)
  then show ?thesis by (intro exI [of _ "[]"]) simp
next
  case False
  let ?l = "(Log (''Acquired git lock for batch of '' @ show_nat (length items) @ '' files''),
             Succeeded [])"
  obtain r1 tr1 where v: "validate_batch cfg env [] [] items (tr @ [?l]) = (r1, tr1)"
    by (cases "validate_batch cfg env [] [] items (tr @ [?l])")
  from validate_batch_events [OF v] obtain n1 where n1: "tr1 = tr @ [?l] @ n1"
    "\<forall>x\<in>set n1. git_subcommand (fst x) = ''remote'' \<or> git_subcommand (fst x) = []"
    by auto
  have nodiff: "(Exec [''git'', ''diff'', ''--cached'', ''--quiet''], Succeeded out)
                  \<notin> set ([?l] @ n1)" for out
    using n1(2) by (auto simp: git_subcommand_def)
  have nocommit: "\<forall>x\<in>set ([?l] @ n1). git_subcommand (fst x) \<noteq> ''commit''
      \<and> git_subcommand (fst x) \<noteq> ''push''"
    using n1(2) by (auto simp: git_subcommand_def)
  show ?thesis
  proof (cases r1)
    case (Inl e)
    then have "tr' = tr @ ([?l] @ n1)"
      using assms False v n1 by (simp add: performBatchedGitOperations_def emit_def Let_def)
    then show ?thesis using nodiff by blast
  next
    case (Inr validated)
    obtain r2 tr2 where e: "executeBatchedGitCommands cfg env validated tr1 = (r2, tr2)"
      by (cases "executeBatchedGitCommands cfg env validated tr1")
    from execute_events [OF e] obtain n2 where n2: "tr2 = tr1 @ n2"
      "(\<exists>out. (Exec [''git'', ''diff'', ''--cached'', ''--quiet''], Succeeded out) \<in> set n2)
          \<longrightarrow> r2 = None \<and> (\<forall>x\<in>set n2. git_subcommand (fst x) \<noteq> ''commit''
                                        \<and> git_subcommand (fst x) \<noteq> ''push'')"
      by blast
    show ?thesis
    proof (cases r2)
      case (Some e2)
      then have "r = Some e2" "tr' = tr @ ([?l] @ n1 @ n2)"
        using assms False v Inr e n1 n2
        by (simp_all add: performBatchedGitOperations_def emit_def Let_def)
      moreover have "\<not> (\<exists>out. (Exec [''git'', ''diff'', ''--cached'', ''--quiet''], Succeeded out)
                        \<in> set ([?l] @ n1 @ n2))"
        using n2(2) Some nodiff by auto
      ultimately show ?thesis by blast
    next
      case None
      let ?p = "(Log (''Pushed batch of '' @ show_nat (length validated) @ '' files to ''
                      @ Branch cfg), Succeeded [])"
      have "r = None" "tr' = tr @ ([?l] @ n1 @ n2 @ [?p])"
        using assms False v Inr e n1 n2 None
        by (simp_all add: performBatchedGitOperations_def emit_def Let_def)
      moreover have "(\<exists>out. (Exec [''git'', ''diff'', ''--cached'', ''--quiet''], Succeeded out)
                        \<in> set ([?l] @ n1 @ n2 @ [?p]))
          \<longrightarrow> (\<forall>x\<in>set ([?l] @ n1 @ n2 @ [?p]). git_subcommand (fst x) \<noteq> ''commit''
                                        \<and> git_subcommand (fst x) \<noteq> ''push'')"
        using n2(2) nodiff nocommit by (auto simp: git_subcommand_def)
      ultimately show ?thesis by blast
    qed
  qed
qed

text \<open>
  C7. Take a flush (a call of \<^verbatim>\<open>processBatch\<close> on a non-empty buffer) in which
  \<^verbatim>\<open>git diff --cached --quiet\<close> was run and succeeded, which is how git reports that
  nothing is staged. Then the flush ran neither \<^verbatim>\<open>git commit\<close> nor \<^verbatim>\<open>git push\<close>,
  and nil, the success value, was sent on the response channel of every item of the batch
  (the channels being fresh, as \<^verbatim>\<open>batchGitOperation\<close> makes them).
\<close>

theorem no_staged_changes_no_commit:
  assumes "batch st \<noteq> []"
    and "(Exec [''git'', ''diff'', ''--cached'', ''--quiet''], Succeeded out)
           \<in> set (drop (length (io_trace st)) (io_trace (processBatch cfg env now st)))"
    and "\<forall>item\<in>set (batch st). chans st (ResponseCh item) = []"
  shows "(\<forall>x\<in>set (drop (length (io_trace st)) (io_trace (processBatch cfg env now st))).
            git_subcommand (fst x) \<noteq> ''commit'' \<and> git_subcommand (fst x) \<noteq> ''push'')
       \<and> (\<forall>item\<in>set (batch st).
            chans (processBatch cfg env now st) (ResponseCh item) = [(now, None)])
       \<and> flushed (processBatch cfg env now st) = flushed st @ [batch st]"
proof -
  let ?l = "(Log (''Processing git batch with '' @ show_nat (length (batch st)) @ '' items''),
             Succeeded [])"
  obtain r tr' where p:
    "performBatchedGitOperations cfg env (batch st) (io_trace st @ [?l]) = (r, tr')"
    by (cases "performBatchedGitOperations cfg env (batch st) (io_trace st @ [?l])")
  from perform_events [OF p] obtain new where new: "tr' = (io_trace st @ [?l]) @ new"
    "(\<exists>out. (Exec [''git'', ''diff'', ''--cached'', ''--quiet''], Succeeded out) \<in> set new)
       \<longrightarrow> r = None \<and> (\<forall>x\<in>set new. git_subcommand (fst x) \<noteq> ''commit''
                                     \<and> git_subcommand (fst x) \<noteq> ''push'')"
    by blast
  have tr: "io_trace (processBatch cfg env now st) = io_trace st @ ?l # new"
    and ch: "chans (processBatch cfg env now st) = send_results now r (batch st) (chans st)"
    and fl: "flushed (processBatch cfg env now st) = flushed st @ [batch st]"
    using assms(1) p new(1) by (simp_all add: processBatch_def emit_def Let_def)
  have "(Exec [''git'', ''diff'', ''--cached'', ''--quiet''], Succeeded out) \<in> set (?l # new)"
    using assms(2) unfolding tr by simp
  then have d: "(Exec [''git'', ''diff'', ''--cached'', ''--quiet''], Succeeded out) \<in> set new"
    by simp
  then have r: "r = None"
    and nc: "\<forall>x\<in>set new. git_subcommand (fst x) \<noteq> ''commit''
                           \<and> git_subcommand (fst x) \<noteq> ''push''"
    using new(2) by blast+
  have "\<forall>x\<in>set (?l # new). git_subcommand (fst x) \<noteq> ''commit''
                             \<and> git_subcommand (fst x) \<noteq> ''push''"
    using nc by (simp add: git_subcommand_def)
  moreover have "\<forall>item\<in>set (batch st).
      chans (processBatch cfg env now st) (ResponseCh item) = [(now, None)]"
    using assms(3) unfolding ch r by (simp add: send_results_chan)
  ultimately show ?thesis using fl unfolding tr by simp
qed

theorem no_staged_changes_no_commit_witness:
  "batch ((init_state demo_cfg 0)\<lparr>batch := [demo_item ''pages'' ''a'' 1, demo_item ''pages'' ''b'' 2]\<rparr>)
     \<noteq> []
   \<and> (Exec [''git'', ''diff'', ''--cached'', ''--quiet''], Succeeded [])
        \<in> set (drop (length (io_trace ((init_state demo_cfg 0)
                  \<lparr>batch := [demo_item ''pages'' ''a'' 1, demo_item ''pages'' ''b'' 2]\<rparr>)))
             (io_trace (processBatch demo_cfg (git_env ''git@github.com:alice/pages.git'' True) 5
                ((init_state demo_cfg 0)
                   \<lparr>batch := [demo_item ''pages'' ''a'' 1, demo_item ''pages'' ''b'' 2]\<rparr>))))
   \<and> chans (processBatch demo_cfg (git_env ''git@github.com:alice/pages.git'' True) 5
        ((init_state demo_cfg 0)
           \<lparr>batch := [demo_item ''pages'' ''a'' 1, demo_item ''pages'' ''b'' 2]\<rparr>)) 1 = [(5, None)]
   \<and> chans (processBatch demo_cfg (git_env ''git@github.com:alice/pages.git'' True) 5
        ((init_state demo_cfg 0)
           \<lparr>batch := [demo_item ''pages'' ''a'' 1, demo_item ''pages'' ''b'' 2]\<rparr>)) 2 = [(5, None)]"
proof -
  let ?st = "(init_state demo_cfg 0)
               \<lparr>batch := [demo_item ''pages'' ''a'' 1, demo_item ''pages'' ''b'' 2]\<rparr>"
  let ?env = "git_env ''git@github.com:alice/pages.git'' True"
  have h1: "batch ?st \<noteq> []" by simp
  have h2: "(Exec [''git'', ''diff'', ''--cached'', ''--quiet''], Succeeded [])
        \<in> set (drop (length (io_trace ?st)) (io_trace (processBatch demo_cfg ?env 5 ?st)))"
    by (simp add: processBatch_def init_state_def eval_defs)
  have h3: "\<forall>item\<in>set (batch ?st). chans ?st (ResponseCh item) = []"
    by (simp add: init_state_def)
  from no_staged_changes_no_commit [OF h1 h2 h3]
  have c: "\<forall>item\<in>set (batch ?st).
             chans (processBatch demo_cfg ?env 5 ?st) (ResponseCh item) = [(5, None)]"
    by blast
  have c1: "chans (processBatch demo_cfg ?env 5 ?st) 1 = [(5, None)]"
    using c by (simp add: demo_item_def)
  have c2: "chans (processBatch demo_cfg ?env 5 ?st) 2 = [(5, None)]"
    using c by (simp add: demo_item_def)
  show ?thesis using h1 h2 c1 c2 by - (intro conjI, assumption+)
qed

section \<open>The outcome of a flush is never the timeout error\<close>

lemma validate_item_not_Timeout:
  "fst (validate_item cfg env seen item tr) \<noteq> Inl Timeout"
  by (auto simp: validate_item_def checkGitRemote_def getRemoteURL_def parseGitHubURL_def
                 perform_def Let_def
           split: resp.splits if_splits sum.splits prod.splits option.splits)

lemma validate_batch_not_Timeout:
  "fst (validate_batch cfg env seen done items tr) \<noteq> Inl Timeout"
proof (induction items arbitrary: seen "done" tr)
  case Nil
  show ?case by simp
next
  case (Cons item items)
  show ?case
    using validate_item_not_Timeout [of cfg env seen item tr] Cons
    by (cases "validate_item cfg env seen item tr") (auto split: sum.splits)
qed

lemma execute_not_Timeout:
  "fst (executeBatchedGitCommands cfg env items tr) \<noteq> Some Timeout"
  by (auto simp: executeBatchedGitCommands_def perform_def Let_def
           split: resp.splits prod.splits option.splits)

lemma perform_not_Timeout:
  "fst (performBatchedGitOperations cfg env items tr) \<noteq> Some Timeout"
  using validate_batch_not_Timeout [of cfg env "[]" "[]" items]
        execute_not_Timeout [of cfg env]
  by (auto simp: performBatchedGitOperations_def Let_def
           split: prod.splits sum.splits option.splits)
     (metis fst_conv)+

lemma processBatch_no_Timeout:
  assumes "\<forall>h. \<forall>v\<in>set (chans st h). snd v \<noteq> Some Timeout"
  shows "\<forall>h. \<forall>v\<in>set (chans (processBatch cfg env now st) h). snd v \<noteq> Some Timeout"
proof (cases "batch st = []")
  case True
  then show ?thesis using assms by (simp add: processBatch_empty)
next
  case False
  show ?thesis
    using assms perform_not_Timeout [of cfg env "batch st"]
    unfolding processBatch_flush(4) [OF False] send_results_chan
    by auto
qed

lemma step_no_Timeout:
  assumes "\<forall>h. \<forall>v\<in>set (chans st h). snd v \<noteq> Some Timeout"
  shows "\<forall>h. \<forall>v\<in>set (chans (step cfg env st te) h). snd v \<noteq> Some Timeout"
proof (cases "exited st")
  case True
  then show ?thesis using assms by (simp add: step_def)
next
  case False
  show ?thesis
  proof (cases "snd te")
    case (Recv item)
    have "\<forall>h. \<forall>v\<in>set (chans (st\<lparr>batch := batch st @ [item]\<rparr>) h). snd v \<noteq> Some Timeout"
      using assms by simp
    from processBatch_no_Timeout [OF this] show ?thesis
      using assms False Recv by (simp add: step_def Let_def)
  next
    case Tick
    have "\<forall>h. \<forall>v\<in>set (chans (st\<lparr>ticker_due := fst te + BatchTimeout cfg\<rparr>) h).
            snd v \<noteq> Some Timeout"
      using assms by simp
    from processBatch_no_Timeout [OF this] show ?thesis
      using False Tick by (simp add: step_def)
  next
    case Closed
    from processBatch_no_Timeout [OF assms] show ?thesis
      using False Closed by (simp add: step_def)
  qed
qed

lemma run_no_Timeout:
  "\<forall>h. \<forall>v\<in>set (chans st h). snd v \<noteq> Some Timeout \<Longrightarrow>
     \<forall>h. \<forall>v\<in>set (chans (gitBatchProcessor cfg env st evs) h). snd v \<noteq> Some Timeout"
proof (induction evs arbitrary: st)
  case Nil
  then show ?case by (simp add: gitBatchProcessor_Nil)
next
  case (Cons e evs)
  from Cons.IH [OF step_no_Timeout [OF Cons.prems]] show ?case
    by (simp add: gitBatchProcessor_Cons)
qed

lemma signal_of_no_Timeout:
  "signal_of (gitBatchProcessor cfg env (init_state cfg t0) evs) h \<noteq> Some (t, Some Timeout)"
proof -
  have "\<forall>h. \<forall>v\<in>set (chans (init_state cfg t0) h). snd v \<noteq> Some Timeout"
    by (simp add: init_state_def)
  from run_no_Timeout [OF this, of cfg env evs]
  have inv: "\<forall>v\<in>set (chans (gitBatchProcessor cfg env (init_state cfg t0) evs) h).
               snd v \<noteq> Some Timeout"
    by blast
  show ?thesis
  proof (cases "chans (gitBatchProcessor cfg env (init_state cfg t0) evs) h")
    case Nil
    then show ?thesis by (simp add: signal_of_def)
  next
    case (Cons v vs)
    then have "snd v \<noteq> Some Timeout" using inv by simp
    then show ?thesis using Cons by (auto simp: signal_of_def)
  qed
qed

section \<open>Where the program departs from the specification\<close>

text \<open>
  C3. The validation loop checks the owner and the repository name only for the first
  item of each host of a batch: \<^verbatim>\<open>seenHosts\<close> is keyed by the host alone. A second
  item with the same host and another namespace is not checked. With the remote
  \<^verbatim>\<open>git@github.com:alice/pages.git\<close>, the batch of
  \<^verbatim>\<open>did:web:alice.github.io:pages:a\<close> and \<^verbatim>\<open>did:web:alice.github.io:other:b\<close>
  passes validation, both files are staged with \<^verbatim>\<open>git add\<close> and the flush returns
  nil, although the namespace \<^verbatim>\<open>other\<close> is not the repository \<^verbatim>\<open>pages\<close>; the
  second item alone is refused with the repository mismatch.
\<close>

theorem same_host_other_namespace_staged:
  "parseDID ''did:web:alice.github.io:pages:a'' = Inr (demo_did ''pages'' [''a''])
   \<and> parseDID ''did:web:alice.github.io:other:b'' = Inr (demo_did ''other'' [''b''])
   \<and> parseGitHubURL ''git@github.com:alice/pages.git'' = Inr (''alice'', ''pages'')
   \<and> \<not> EqualFold ''pages'' (Project (ParsedDID (demo_item ''other'' ''b'' 2)))
   \<and> fst (performBatchedGitOperations demo_cfg (git_env ''git@github.com:alice/pages.git'' False)
          [demo_item ''pages'' ''a'' 1, demo_item ''other'' ''b'' 2] []) = None
   \<and> (Exec [''git'', ''add'', ''a/did.json'', ''b/did.json''], Succeeded [])
        \<in> set (snd (performBatchedGitOperations demo_cfg
                      (git_env ''git@github.com:alice/pages.git'' False)
                      [demo_item ''pages'' ''a'' 1, demo_item ''other'' ''b'' 2] []))
   \<and> fst (performBatchedGitOperations demo_cfg (git_env ''git@github.com:alice/pages.git'' False)
          [demo_item ''other'' ''b'' 2] []) = Some (RepoMismatch ''other'' ''pages'')"
proof -
  have p1: "parseDID ''did:web:alice.github.io:pages:a'' = Inr (demo_did ''pages'' [''a''])"
    by (simp add: parseDID_def demo_did_def HasPrefix_def ToLower_def lower_char_def Let_def)
  have p2: "parseDID ''did:web:alice.github.io:other:b'' = Inr (demo_did ''other'' [''b''])"
    by (simp add: parseDID_def demo_did_def HasPrefix_def ToLower_def lower_char_def Let_def)
  have u: "parseGitHubURL ''git@github.com:alice/pages.git'' = Inr (''alice'', ''pages'')"
    by (simp add: eval_defs)
  have m: "\<not> EqualFold ''pages'' (Project (ParsedDID (demo_item ''other'' ''b'' 2)))"
    by (simp add: eval_defs)
  have r: "fst (performBatchedGitOperations demo_cfg
              (git_env ''git@github.com:alice/pages.git'' False)
              [demo_item ''pages'' ''a'' 1, demo_item ''other'' ''b'' 2] []) = None"
    by (simp add: eval_defs)
  have s: "(Exec [''git'', ''add'', ''a/did.json'', ''b/did.json''], Succeeded [])
        \<in> set (snd (performBatchedGitOperations demo_cfg
                      (git_env ''git@github.com:alice/pages.git'' False)
                      [demo_item ''pages'' ''a'' 1, demo_item ''other'' ''b'' 2] []))"
    by (simp add: eval_defs)
  have a: "fst (performBatchedGitOperations demo_cfg
              (git_env ''git@github.com:alice/pages.git'' False)
              [demo_item ''other'' ''b'' 2] []) = Some (RepoMismatch ''other'' ''pages'')"
    by (simp add: eval_defs)
  show ?thesis using p1 p2 u m r s a by - (intro conjI, assumption+)
qed

text \<open>
  C1. The 30 seconds of \<^verbatim>\<open>batchGitOperation\<close> bound only the send on \<^verbatim>\<open>batchCh\<close>;
  the receive from the response channel that follows has no deadline. With a batch timeout
  of 60 seconds and a size ceiling of 10, a single item admitted at second 0 is flushed
  by the first tick, at second 60 (the time the ticker is due): the caller returns at
  second 60 with the outcome of the batch and is not given \<^verbatim>\<open>Timeout\<close> at second 30.
  When no value ever arrives on the response channel the call does not return.
\<close>

theorem wait_exceeds_ceiling:
  "(let cfg = demo_cfg\<lparr>BatchTimeout := 60, BatchSize := 10\<rparr>;
        item = demo_item ''pages'' ''a'' 1;
        st = gitBatchProcessor cfg (git_env ''git@github.com:alice/pages.git'' False)
               (init_state cfg 0) [(0, Recv item), (60, Tick)]
    in ticker_due (init_state cfg 0) = 60
     \<and> flushed st = [[item]]
     \<and> signal_of st (ResponseCh item) = Some (60, None)
     \<and> fst (batchGitOperation \<lparr>send_ready = Some 0, signal = signal_of st (ResponseCh item)\<rparr>
              item []) = Some (60, None)
     \<and> fst (batchGitOperation \<lparr>send_ready = Some 0, signal = None\<rparr> item []) = None)"
  by (simp add: gitBatchProcessor_def step_def processBatch_def init_state_def signal_of_def
      batchGitOperation_def eval_defs)

text \<open>
  C2. \<^verbatim>\<open>batchGitOperation\<close> returns the timeout error only from the branch of the
  \<^verbatim>\<open>select\<close> in which the item has not been sent. Let the response channel carry
  what the batch processor sends on it in any run (the outcome of a flush is never the
  timeout error). Whenever the result is \<^verbatim>\<open>Timeout\<close>, the trace has no send of the
  item on \<^verbatim>\<open>batchCh\<close>, the call returned at second 30, and the channel could not
  take the item before: the item of a caller that timed out is in no queue and reaches no
  flush.
\<close>

theorem timeout_item_never_sent:
  assumes "batchGitOperation sc item tr = (Some (t, Some Timeout), tr')"
    and "signal sc = signal_of (gitBatchProcessor cfg env (init_state cfg t0) evs) (ResponseCh item)"
  shows "tr' = tr \<and> t = 30 \<and> (\<forall>ts. send_ready sc = Some ts \<longrightarrow> 30 \<le> ts)"
proof -
  have "\<forall>t'. signal sc \<noteq> Some (t', Some Timeout)"
    unfolding assms(2) using signal_of_no_Timeout [of cfg env t0 evs "ResponseCh item"] by blast
  then show ?thesis
    using assms(1)
    by (auto simp: batchGitOperation_def emit_def split: option.splits if_splits)
qed

theorem timeout_item_never_sent_witness:
  "batchGitOperation \<lparr>send_ready = None, signal = None\<rparr> (demo_item ''pages'' ''a'' 1) []
     = (Some (30, Some Timeout), [])
   \<and> signal \<lparr>send_ready = None, signal = None\<rparr>
       = signal_of (gitBatchProcessor demo_cfg ok_env (init_state demo_cfg 0) [(5, Tick)])
           (ResponseCh (demo_item ''pages'' ''a'' 1))
   \<and> flushed (gitBatchProcessor demo_cfg ok_env (init_state demo_cfg 0) [(5, Tick)]) = []
   \<and> (\<forall>ts. send_ready \<lparr>send_ready = None, signal = None\<rparr> \<noteq> Some ts)"
proof -
  have ev: "batchGitOperation \<lparr>send_ready = None, signal = None\<rparr> (demo_item ''pages'' ''a'' 1) []
     = (Some (30, Some Timeout), [])"
    by (simp add: batchGitOperation_def)
  have h: "signal \<lparr>send_ready = None, signal = None\<rparr>
       = signal_of (gitBatchProcessor demo_cfg ok_env (init_state demo_cfg 0) [(5, Tick)])
           (ResponseCh (demo_item ''pages'' ''a'' 1))"
    by (simp add: gitBatchProcessor_def step_def processBatch_def init_state_def signal_of_def)
  have f: "flushed (gitBatchProcessor demo_cfg ok_env (init_state demo_cfg 0) [(5, Tick)]) = []"
    by (simp add: gitBatchProcessor_def step_def processBatch_def init_state_def)
  from timeout_item_never_sent [OF ev h]
  have c: "\<forall>ts. send_ready \<lparr>send_ready = None, signal = None\<rparr> \<noteq> Some ts"
    by simp
  show ?thesis using ev h f c by - (intro conjI, assumption+)
qed

end
